theory Spec2Isabelle
  imports Main "HOL-Library.Word"
begin

unbundle bit_operations_syntax

text \<open>
  A model of \<open>clogik_50_ser.cpp\<close>, the reference reader of the Cerebralogik 5.0 serial
  protocol: the byte-at-a-time frame parser \<open>parser\<close> with the text it prints, and the
  command encoder \<open>setParam\<close>. The globals become a record that each step takes and
  returns; \<open>unsigned short\<close> and \<open>short\<close> are 16-bit words (read with \<open>uint\<close> and
  \<open>sint\<close>), \<open>unsigned char\<close> is an 8-bit word.
\<close>

section \<open>Output streams and printf formatting\<close>

text \<open>
  The three streams the program prints to (\<open>out_gs\<close>, \<open>out_eeg\<close>, \<open>stdout\<close>) are modelled
  as the sequence of characters handed to \<open>fprintf_s\<close>.
\<close>

type_synonym stream = string

definition newline :: char where
  "newline = CHR 0x0A"

text \<open>The digits of \<open>n\<close> in a base from 2 to 16, most significant first, in upper case.\<close>

definition digit_char :: "nat \<Rightarrow> char" where
  "digit_char d = ''0123456789ABCDEF'' ! d"

fun digits :: "nat \<Rightarrow> nat \<Rightarrow> string" where
  "digits base n =
     (if n < base \<or> base < 2 then [digit_char n]
      else digits base (n div base) @ [digit_char (n mod base)])"

declare digits.simps [simp del]

text \<open>\<open>%d\<close> applied to an \<open>int\<close> argument.\<close>

definition fmt_d :: "int \<Rightarrow> string" where
  "fmt_d i = (if i < 0 then CHR ''-'' # digits 10 (nat (- i)) else digits 10 (nat i))"

text \<open>
  \<open>%08X\<close> applied to an \<open>int\<close> argument: the argument is read as a 32-bit unsigned
  value, printed in upper-case hexadecimal and padded with zeros on the left to width 8.
\<close>

definition fmt_08X :: "int \<Rightarrow> string" where
  "fmt_08X i =
     (let ds = digits 16 (nat (i mod 2 ^ 32))
      in replicate (8 - length ds) (CHR ''0'') @ ds)"

text \<open>
  The one floating-point computation of the program is \<open>((float)data1[0])*0.076\<close>, printed
  with \<open>%f\<close>. The conversion to \<open>float\<close> is exact: a 16-bit integer has at most 16
  significant bits and a \<open>float\<close> holds 24. The product is taken in \<open>double\<close> with the literal
  \<open>0.076\<close>. A double of this computation is represented by the integer that counts its
  units of \<open>2 ^ -56\<close>, the sign kept apart. The literal is \<open>dbl_0_076\<close> units, which is
  the double nearest to \<open>0.076\<close> (lemma \<open>dbl_0_076_nearest\<close> below: a 53-bit significand
  within half a unit of \<open>0.076 * 2 ^ 56\<close>). The product of the literal and an integer is
  rounded to 53 significant bits, to the nearest value and to the even one on a tie.
\<close>

text \<open>The quotient of \<open>a\<close> by \<open>d\<close> rounded to the nearest integer, to the even one on a tie.\<close>

definition round_div :: "nat \<Rightarrow> nat \<Rightarrow> nat" where
  "round_div a d =
     (let q = a div d; r = a mod d
      in if 2 * r < d then q else if d < 2 * r then q + 1 else if even q then q else q + 1)"

text \<open>The number of bits of \<open>n\<close>, and \<open>n\<close> rounded to 53 significant bits.\<close>

fun bit_length :: "nat \<Rightarrow> nat" where
  "bit_length n = (if n = 0 then 0 else Suc (bit_length (n div 2)))"

declare bit_length.simps [simp del]

definition round53 :: "nat \<Rightarrow> nat" where
  "round53 n =
     (if bit_length n \<le> 53 then n
      else let d = 2 ^ (bit_length n - 53) in round_div n d * d)"

definition dbl_0_076 :: nat where
  "dbl_0_076 = 5476377146882523"

text \<open>\<open>((float)x)*0.076\<close> for a 16-bit \<open>x\<close>, in units of \<open>2 ^ -56\<close>.\<close>

definition mul_0_076 :: "int \<Rightarrow> int" where
  "mul_0_076 x = sgn x * int (round53 (nat \<bar>x\<bar> * dbl_0_076))"

text \<open>
  \<open>%f\<close> applied to a double given in units of \<open>2 ^ -56\<close>: the sign, the integer part, a
  point and six digits, the value being rounded to the nearest millionth; \<open>fixed6 n\<close> is
  the text of \<open>n\<close> millionths. How a tie is rounded plays no role for the products of this
  program, which are never half a millionth away from the value printed (lemma
  \<open>fmt_f_mul_0_076\<close> below).
\<close>

definition fixed6 :: "nat \<Rightarrow> string" where
  "fixed6 n =
     (let ds = digits 10 (n mod 10 ^ 6)
      in digits 10 (n div 10 ^ 6) @ ''.'' @ replicate (6 - length ds) (CHR ''0'') @ ds)"

definition fmt_f :: "int \<Rightarrow> string" where
  "fmt_f u =
     (if u < 0 then ''-'' else []) @ fixed6 (round_div (nat \<bar>u\<bar> * 10 ^ 6) (2 ^ 56))"

section \<open>Parser state\<close>

text \<open>The globals of \<open>clogik_50_ser.cpp\<close> that \<open>parser\<close> reads and writes.\<close>

record pstate =
  Phase :: "16 word"
  Crc :: "16 word"
  RdyFlg :: "16 word"
  LocalIndex :: "16 word"
  MsgCRC :: "16 word"
  data1 :: "16 word list"
  packet :: "16 word"
  out_gs :: stream
  out_eeg :: stream
  out_stdout :: stream

text \<open>Static storage is zero-initialised; \<open>main\<close> sets \<open>Phase = 0\<close> again and opens the files.\<close>

definition init_state :: pstate where
  "init_state =
     \<lparr>Phase = 0, Crc = 0, RdyFlg = 0, LocalIndex = 0, MsgCRC = 0,
      data1 = replicate 18 0, packet = 0, out_gs = [], out_eeg = [], out_stdout = []\<rparr>"

section \<open>The parser, one byte at a time\<close>

text \<open>\<open>case(0)\<close>: header, first byte.\<close>

definition phase0 :: "pstate \<Rightarrow> 8 word \<Rightarrow> pstate" where
  "phase0 s b = (if b = 0xAA then s\<lparr>Phase := 1, Crc := 0xAA\<rparr> else s)"

text \<open>\<open>case(1)\<close>: header, second byte. There is no \<open>else\<close> branch.\<close>

definition phase1 :: "pstate \<Rightarrow> 8 word \<Rightarrow> pstate" where
  "phase1 s b =
     (if b = 0x55
      then s\<lparr>Phase := 2, RdyFlg := 0, Crc := Crc s + 0x55, LocalIndex := 0\<rparr>
      else s)"

text \<open>
  \<open>case(2)\<close>: data collection. \<open>data1\<close> has 18 elements; a store at an index of 18 or
  more is outside the array and is the result \<open>None\<close>.
\<close>

definition phase2 :: "pstate \<Rightarrow> 8 word \<Rightarrow> pstate option" where
  "phase2 s b =
     (let indx = unat (LocalIndex s) div 2
      in if indx < 18 then
           let d = (if unat (LocalIndex s) mod 2 = 0
                    then (data1 s)[indx := push_bit 8 (ucast (b AND 0xFF))]
                    else (data1 s)[indx := (data1 s ! indx) OR ucast b]);
               s1 = s\<lparr>data1 := d, LocalIndex := LocalIndex s + 1, Crc := Crc s + ucast b\<rparr>
           in Some (if LocalIndex s1 = 36 then s1\<lparr>Phase := 3\<rparr> else s1)
         else None)"

text \<open>\<open>case(3)\<close>: first checksum byte.\<close>

definition phase3 :: "pstate \<Rightarrow> 8 word \<Rightarrow> pstate" where
  "phase3 s b = s\<lparr>MsgCRC := push_bit 8 (ucast (b AND 0xFF)), Phase := 4\<rparr>"

text \<open>The two \<open>fprintf_s\<close> calls on \<open>out_gs\<close>, the one on \<open>out_eeg\<close> and the one on \<open>stdout\<close>.\<close>

definition gs_record :: "int \<Rightarrow> int \<Rightarrow> int \<Rightarrow> stream" where
  "gs_record p w3 w16 =
     (fmt_d p @ '', '' @ fmt_d w3 @ '', '' @ fmt_d w16 @ '' '')
     @ [newline]"

definition eeg_record :: "int \<Rightarrow> int \<Rightarrow> int \<Rightarrow> stream" where
  "eeg_record p w0 w9 =
     fmt_d p @ '', '' @ fmt_d w0 @ '', '' @ fmt_f (mul_0_076 w0) @ '', ''
     @ fmt_08X w9 @ [newline]"

definition error_report :: "int \<Rightarrow> stream" where
  "error_report p = ''Error packet '' @ fmt_d p @ [newline]"

text \<open>\<open>case(4)\<close>: second checksum byte, validation and output.\<close>

definition phase4 :: "pstate \<Rightarrow> 8 word \<Rightarrow> pstate" where
  "phase4 s b =
     (let s1 = s\<lparr>MsgCRC := MsgCRC s + ucast b\<rparr>;
          s2 = (if MsgCRC s1 = Crc s1 then
                  let s3 = s1\<lparr>RdyFlg := 1, packet := packet s1 + 1\<rparr>;
                      s4 = (if sint (data1 s3 ! 16) \<noteq> 255
                            then s3\<lparr>out_gs := out_gs s3 @
                                   gs_record (uint (packet s3)) (sint (data1 s3 ! 3))
                                     (sint (data1 s3 ! 16))\<rparr>
                            else s3)
                  in s4\<lparr>out_eeg := out_eeg s4 @
                          eeg_record (uint (packet s4)) (sint (data1 s4 ! 0))
                            (sint (data1 s4 ! 9))\<rparr>
                else s1\<lparr>out_stdout := out_stdout s1 @ error_report (uint (packet s1))\<rparr>)
      in s2\<lparr>Phase := 0\<rparr>)"

text \<open>The \<open>switch\<close> has no \<open>default\<close>: with any other \<open>Phase\<close> the byte is skipped.\<close>

definition step :: "pstate \<Rightarrow> 8 word \<Rightarrow> pstate option" where
  "step s b =
     (if Phase s = 0 then Some (phase0 s b)
      else if Phase s = 1 then Some (phase1 s b)
      else if Phase s = 2 then phase2 s b
      else if Phase s = 3 then Some (phase3 s b)
      else if Phase s = 4 then Some (phase4 s b)
      else Some s)"

text \<open>\<open>parser(size, buffer)\<close>: the \<open>for\<close> loop over the \<open>size\<close> bytes of the chunk.\<close>

fun parser :: "pstate \<Rightarrow> 8 word list \<Rightarrow> pstate option" where
  "parser s [] = Some s"
| "parser s (b # bs) = (case step s b of None \<Rightarrow> None | Some s' \<Rightarrow> parser s' bs)"

section \<open>The command encoder\<close>

text \<open>
  Modelled from the spec: \<open>Serial_c.h\<close> is not part of the repository. Its
  \<open>write(buf, n)\<close> is taken to hand the first \<open>n\<close> bytes of \<open>buf\<close> to the transport in
  one call; the transport is the list of the buffers written so far.
\<close>

type_synonym serial = "8 word list list"

definition serial_write :: "serial \<Rightarrow> 8 word list \<Rightarrow> nat \<Rightarrow> serial" where
  "serial_write ser buf n = ser @ [take n buf]"

text \<open>
  \<open>setParam\<close>: the operands of \<open><<\<close>, \<open>|\<close> and \<open>+\<close> are promoted to \<open>int\<close>, and the
  results are cut to eight bits when stored in an \<open>unsigned char\<close>.
\<close>

definition setParam :: "serial \<Rightarrow> 8 word \<Rightarrow> 8 word \<Rightarrow> serial" where
  "setParam ser CommandType CommandOpt =
     (let c0 = 0xAA :: 8 word;
          c1 = 0x55 :: 8 word;
          c2 = 0x0 :: 8 word;
          c3 = word_of_int (push_bit 4 (uint CommandType) OR uint CommandOpt) :: 8 word;
          c4 = 0x0 :: 8 word;
          c5 = 0x0 :: 8 word;
          CRC = word_of_int (uint c0 + uint c1 + uint c2 + uint c3 + uint c4 + uint c5)
                  :: 8 word;
          c6 = CRC;
          c7 = 0x3 :: 8 word
      in serial_write ser [c0, c1, c2, c3, c4, c5, c6, c7] 8)"

section \<open>Notions used to state the properties\<close>

text \<open>The effect of the data collection phase on the buffer, from payload offset \<open>k\<close> on.\<close>

fun store_bytes :: "nat \<Rightarrow> 16 word list \<Rightarrow> 8 word list \<Rightarrow> 16 word list" where
  "store_bytes k d [] = d"
| "store_bytes k d (b # bs) =
     store_bytes (Suc k)
       (if even k then d[k div 2 := push_bit 8 (ucast b)]
        else d[k div 2 := (d ! (k div 2)) OR ucast b]) bs"

text \<open>A big-endian 16-bit word, and a payload read as a sequence of such words.\<close>

definition be16 :: "8 word \<Rightarrow> 8 word \<Rightarrow> 16 word" where
  "be16 h l = word_of_nat (256 * unat h + unat l)"

fun words_of :: "8 word list \<Rightarrow> 16 word list" where
  "words_of [] = []"
| "words_of [b] = []"
| "words_of (h # l # bs) = be16 h l # words_of bs"

text \<open>
  The device-to-host frame with payload \<open>ps\<close> and checksum bytes \<open>c1\<close>, \<open>c2\<close>; with its
  36 payload bytes it is 40 bytes long.
\<close>

definition frame :: "8 word list \<Rightarrow> 8 word \<Rightarrow> 8 word \<Rightarrow> 8 word list" where
  "frame ps c1 c2 = 0xAA # 0x55 # ps @ [c1, c2]"

text \<open>
  The checksum test in arithmetic: the received word against the sum of the two magic
  bytes and the payload bytes, taken modulo \<open>2 ^ 16\<close>.
\<close>

definition checksum_ok :: "8 word list \<Rightarrow> 8 word \<Rightarrow> 8 word \<Rightarrow> bool" where
  "checksum_ok ps c1 c2 \<longleftrightarrow>
     256 * unat c1 + unat c2 = (0xAA + 0x55 + sum_list (map unat ps)) mod 2 ^ 16"

text \<open>The number of records in a stream: its newline characters.\<close>

definition records :: "stream \<Rightarrow> nat" where
  "records st = length (filter (\<lambda>c. c = newline) st)"

text \<open>
  The buffers of the packets that pass the test \<open>MsgCRC == Crc\<close> while the parser
  consumes \<open>bs\<close> from state \<open>s\<close>, in order.
\<close>

fun validated :: "pstate \<Rightarrow> 8 word list \<Rightarrow> 16 word list list" where
  "validated s [] = []"
| "validated s (b # bs) =
     (case step s b of
        None \<Rightarrow> []
      | Some s' \<Rightarrow>
          (if Phase s = 4 \<and> MsgCRC s + ucast b = Crc s then [data1 s] else [])
          @ validated s' bs)"

text \<open>The states the parser can be in: those it reaches from the initial one.\<close>

inductive reachable :: "pstate \<Rightarrow> bool" where
  reachable_init: "reachable init_state"
| reachable_step: "reachable s \<Longrightarrow> step s b = Some s' \<Longrightarrow> reachable s'"

text \<open>
  Within the first \<open>n\<close> bytes of \<open>bs\<close> the parser, started in \<open>s\<close>, is in phase 0 again
  and has printed nothing on \<open>out_gs\<close> and \<open>out_eeg\<close> up to that point.
\<close>

definition back_within :: "nat \<Rightarrow> pstate \<Rightarrow> 8 word list \<Rightarrow> bool" where
  "back_within n s bs =
     list_ex (\<lambda>k. case parser s (take k bs) of
                    None \<Rightarrow> False
                  | Some t \<Rightarrow> Phase t = 0 \<and> out_gs t = out_gs s \<and> out_eeg t = out_eeg s)
       [0 ..< Suc (min n (length bs))]"

text \<open>
  The EEG record in the layout \<open><packet>,<word0>,<word0*0.076>,<word9 as 8-hex-digit>\<close>
  followed by a newline: a bare comma between the fields, and the last field the value of
  the 16-bit slot of word 9 padded with zeros to eight hexadecimal digits.
\<close>

definition eeg_record_spec :: "int \<Rightarrow> int \<Rightarrow> 16 word \<Rightarrow> stream" where
  "eeg_record_spec p w0 w9 =
     fmt_d p @ '','' @ fmt_d w0 @ '','' @ fmt_f (mul_0_076 w0) @ '',''
     @ fmt_08X (uint w9) @ [newline]"

section \<open>Auxiliary facts\<close>

subsection \<open>Bytes and 16-bit words\<close>

lemma unat_lt256: "unat (h :: 8 word) < 256"
  using unsigned_less[of h] by simp

lemma ucast_unat: "unat (ucast (h :: 8 word) :: 16 word) = unat h"
  using unat_lt256[of h] by (simp add: unsigned_ucast_eq take_bit_nat_eq_self)

lemma pb_unat: "unat (push_bit 8 (ucast (h :: 8 word)) :: 16 word) = 256 * unat h"
  using unat_lt256[of h] by (simp add: push_bit_eq_mult unat_word_ariths ucast_unat)

lemma hi_lo_disjoint: "(push_bit 8 (ucast (h :: 8 word)) :: 16 word) AND ucast (l :: 8 word) = 0"
  by (rule bit_eqI) (auto simp: bit_simps dest: bit_imp_le_length)

lemma hi_plus_lo:
  "(push_bit 8 (ucast (h :: 8 word)) :: 16 word) OR ucast (l :: 8 word)
     = push_bit 8 (ucast h) + ucast l"
  by (rule disjunctive_add_eq_or[symmetric]) (rule hi_lo_disjoint)

lemma unat_hi_plus_lo:
  "unat (push_bit 8 (ucast (h :: 8 word)) + ucast (l :: 8 word) :: 16 word)
     = 256 * unat h + unat l"
  using unat_lt256[of h] unat_lt256[of l]
  by (simp add: unat_word_ariths pb_unat ucast_unat)

lemma hi_or_lo_be16:
  "(push_bit 8 (ucast (h :: 8 word)) :: 16 word) OR ucast (l :: 8 word) = be16 h l"
proof -
  have "unat ((push_bit 8 (ucast h) :: 16 word) OR ucast l) = 256 * unat h + unat l"
    by (simp only: hi_plus_lo unat_hi_plus_lo)
  then have "word_of_nat (unat ((push_bit 8 (ucast h) :: 16 word) OR ucast l))
      = (word_of_nat (256 * unat h + unat l) :: 16 word)"
    by (rule arg_cong)
  then show ?thesis by (simp add: be16_def)
qed

lemma unat_be16: "unat (be16 h l) = 256 * unat h + unat l"
  by (simp only: hi_or_lo_be16[symmetric] hi_plus_lo unat_hi_plus_lo)

lemma unat_sum16:
  "unat (sum_list (map ucast (ps :: 8 word list)) :: 16 word) = sum_list (map unat ps) mod 65536"
  by (induction ps) (simp_all add: unat_word_ariths ucast_unat mod_simps)

lemma sint16: "sint (w :: 16 word) = (if uint w < 32768 then uint w else uint w - 65536)"
proof -
  have s: "sint w = (uint w + 32768) mod 65536 - 32768"
    using int_word_sint[of "uint w", where 'a=16] by simp
  have b1: "uint w < 65536" using unsigned_less[of w, where 'a=int] by simp
  have b0: "0 \<le> uint w" by simp
  show ?thesis
  proof (cases "uint w < 32768")
    case True
    then have "(uint w + 32768) mod 65536 = uint w + 32768"
      using b0 by simp
    with s True show ?thesis by simp
  next
    case False
    have e: "uint w + 32768 = (uint w - 32768) + 65536" by simp
    have "(uint w + 32768) mod 65536 = (uint w - 32768) mod 65536"
      unfolding e by (simp only: mod_add_self2)
    also have "\<dots> = uint w - 32768" using False b1 by simp
    finally show ?thesis using s False by simp
  qed
qed

lemma sint_be16:
  "sint (be16 h l) =
     (if unat h < 128 then int (256 * unat h + unat l) else int (256 * unat h + unat l) - 65536)"
proof -
  define n where "n = 256 * unat h + unat l"
  have u: "uint (be16 h l) = int n"
    by (simp only: uint_nat unat_be16 n_def)
  have "unat l < 256" by (rule unat_lt256)
  then have k: "(n < 32768) = (unat h < 128)" unfolding n_def by linarith
  have i: "(int n < 32768) = (n < 32768)" by simp
  have "sint (be16 h l) = (if unat h < 128 then int n else int n - 65536)"
    by (simp only: sint16 u i k)
  then show ?thesis by (simp only: n_def)
qed

subsection \<open>The buffer after the data collection phase\<close>

lemma store_bytes_pair:
  "even k \<Longrightarrow> k div 2 < length d \<Longrightarrow>
   store_bytes k d (h # l # bs) = store_bytes (k + 2) (d[k div 2 := be16 h l]) bs"
  by (simp add: hi_or_lo_be16)

lemma length_store_bytes [simp]: "length (store_bytes k d bs) = length d"
  by (induction bs arbitrary: k d) simp_all

lemma store_bytes_words:
  "even k \<Longrightarrow> k + length bs = 2 * length d \<Longrightarrow>
   store_bytes k d bs = take (k div 2) d @ words_of bs"
proof (induction bs arbitrary: k d rule: words_of.induct)
  case 1
  then show ?case by simp
next
  case (2 b)
  from 2(2) have "Suc k = 2 * length d" by simp
  then have "even (Suc k)" by (metis dvd_triv_left)
  with 2(1) show ?case by simp
next
  case (3 h l bs)
  let ?d = "d[k div 2 := be16 h l]"
  have lt: "k div 2 < length d" using 3(2,3) by auto
  have "store_bytes k d (h # l # bs) = store_bytes (k + 2) ?d bs"
    using store_bytes_pair[OF 3(2) lt] .
  also have "\<dots> = take ((k + 2) div 2) ?d @ words_of bs"
    using 3(2,3) by (intro 3(1)) auto
  also have "take ((k + 2) div 2) ?d = take (k div 2) d @ [be16 h l]"
    using lt by (simp add: take_Suc_conv_app_nth)
  finally show ?case by simp
qed

lemma store_bytes_frame:
  "length d = 18 \<Longrightarrow> length ps = 36 \<Longrightarrow> store_bytes 0 d ps = words_of ps"
  using store_bytes_words[of 0 ps d] by simp

subsection \<open>Runs of the parser\<close>

lemma parser_append:
  "parser s (xs @ ys) = (case parser s xs of None \<Rightarrow> None | Some t \<Rightarrow> parser t ys)"
  by (induction xs arbitrary: s) (auto split: option.splits)

lemma byte_ff: "(0xFF :: 8 word) = - 1"
  by simp

lemma byte_mask: "(b :: 8 word) AND 0xFF = b"
  by (simp add: byte_ff)

lemma li_succ: "unat (x :: 16 word) < 36 \<Longrightarrow> unat (x + 1) = Suc (unat x)"
  by (simp add: unat_word_ariths)

lemma li_36: "unat (x :: 16 word) < 36 \<Longrightarrow> (x + 1 = 36) = (unat x = 35)"
proof -
  assume a: "unat x < 36"
  have "(x + 1 = 36) = (unat (x + 1) = unat (36 :: 16 word))"
    by (simp add: word_unat_eq_iff)
  also have "\<dots> = (unat x = 35)" using li_succ[OF a] by simp
  finally show ?thesis .
qed

lemma phase2_mid:
  assumes "Phase s = 2" "unat (LocalIndex s) < 35"
  shows "step s b = Some (s\<lparr>data1 := store_bytes (unat (LocalIndex s)) (data1 s) [b],
            LocalIndex := LocalIndex s + 1, Crc := Crc s + ucast b\<rparr>)"
proof -
  have "LocalIndex s + 1 \<noteq> 36" using assms(2) li_36[of "LocalIndex s"] by simp
  moreover have "unat (LocalIndex s) div 2 < 18" using assms(2) by simp
  ultimately show ?thesis using assms(1)
    by (simp add: step_def phase2_def byte_mask Let_def even_iff_mod_2_eq_zero)
qed

lemma phase2_last:
  assumes "Phase s = 2" "unat (LocalIndex s) = 35"
  shows "step s b = Some (s\<lparr>data1 := store_bytes (unat (LocalIndex s)) (data1 s) [b],
            LocalIndex := 36, Crc := Crc s + ucast b, Phase := 3\<rparr>)"
proof -
  have "LocalIndex s + 1 = 36" using assms(2) li_36[of "LocalIndex s"] by simp
  then show ?thesis using assms
    by (simp add: step_def phase2_def byte_mask Let_def even_iff_mod_2_eq_zero)
qed

lemma collect_run:
  "Phase s = 2 \<Longrightarrow> unat (LocalIndex s) + length ps = 36 \<Longrightarrow> ps \<noteq> [] \<Longrightarrow>
   parser s ps =
     Some (s\<lparr>data1 := store_bytes (unat (LocalIndex s)) (data1 s) ps, LocalIndex := 36,
              Crc := Crc s + sum_list (map ucast ps), Phase := 3\<rparr>)"
proof (induction ps arbitrary: s)
  case Nil
  then show ?case by simp
next
  case (Cons b ps)
  show ?case
  proof (cases "ps = []")
    case True
    with Cons.prems have "unat (LocalIndex s) = 35" by simp
    then show ?thesis using True Cons.prems(1) phase2_last[of s b] by simp
  next
    case False
    with Cons.prems have lt: "unat (LocalIndex s) < 35" by (cases ps) auto
    let ?t = "s\<lparr>data1 := store_bytes (unat (LocalIndex s)) (data1 s) [b],
            LocalIndex := LocalIndex s + 1, Crc := Crc s + ucast b\<rparr>"
    have st: "step s b = Some ?t" using phase2_mid[OF Cons.prems(1) lt] .
    have li: "unat (LocalIndex ?t) = Suc (unat (LocalIndex s))" using lt li_succ[of "LocalIndex s"] by simp
    have "parser ?t ps = Some (?t\<lparr>data1 := store_bytes (unat (LocalIndex ?t)) (data1 ?t) ps, LocalIndex := 36,
              Crc := Crc ?t + sum_list (map ucast ps), Phase := 3\<rparr>)"
      apply (rule Cons.IH)
      using Cons.prems li False by simp_all
    then show ?thesis using st li by (simp add: add.assoc)
  qed
qed

lemma phase4_ok:
  "MsgCRC s + ucast b = Crc s \<Longrightarrow>
   phase4 s b =
     s\<lparr>MsgCRC := Crc s, RdyFlg := 1, packet := packet s + 1,
       out_gs := out_gs s @
         (if sint (data1 s ! 16) \<noteq> 255
          then gs_record (uint (packet s + 1)) (sint (data1 s ! 3)) (sint (data1 s ! 16))
          else []),
       out_eeg := out_eeg s @
         eeg_record (uint (packet s + 1)) (sint (data1 s ! 0)) (sint (data1 s ! 9)),
       Phase := 0\<rparr>"
  by (simp add: phase4_def Let_def)

lemma phase4_bad:
  "MsgCRC s + ucast b \<noteq> Crc s \<Longrightarrow>
   phase4 s b =
     s\<lparr>MsgCRC := MsgCRC s + ucast b,
       out_stdout := out_stdout s @ error_report (uint (packet s)), Phase := 0\<rparr>"
  by (simp add: phase4_def Let_def)

lemma crc_test:
  "((push_bit 8 (ucast c1) :: 16 word) + ucast c2 = 0xAA + 0x55 + sum_list (map ucast ps))
     = checksum_ok ps c1 c2"
proof -
  have l: "unat ((push_bit 8 (ucast c1) :: 16 word) + ucast c2) = 256 * unat c1 + unat c2"
    by (rule unat_hi_plus_lo)
  have r: "unat (0xAA + 0x55 + sum_list (map ucast ps) :: 16 word)
             = (0xAA + 0x55 + sum_list (map unat ps)) mod 2 ^ 16"
    by (simp add: unat_word_ariths unat_sum16 mod_simps)
  show ?thesis
    unfolding checksum_ok_def word_unat_eq_iff l r ..
qed

text \<open>From the start of the payload to the end of the frame.\<close>

lemma payload_run:
  assumes "Phase s = 2" "LocalIndex s = 0" "length ps = 36"
  shows "parser s (ps @ [c1, c2]) =
           Some (phase4 (s\<lparr>data1 := store_bytes 0 (data1 s) ps, LocalIndex := 36,
                           Crc := Crc s + sum_list (map ucast ps),
                           MsgCRC := push_bit 8 (ucast c1), Phase := 4\<rparr>) c2)"
proof -
  have ne: "ps \<noteq> []" using assms(3) by auto
  have "unat (LocalIndex s) + length ps = 36" using assms by simp
  from collect_run[OF assms(1) this ne]
  have c: "parser s ps =
     Some (s\<lparr>data1 := store_bytes 0 (data1 s) ps, LocalIndex := 36,
              Crc := Crc s + sum_list (map ucast ps), Phase := 3\<rparr>)"
    using assms(2) by simp
  show ?thesis
    by (simp add: parser_append c step_def phase3_def byte_mask)
qed

lemma frame_run:
  assumes "Phase s = 0" "length ps = 36"
  shows "parser s (frame ps c1 c2) =
           Some (phase4 (s\<lparr>RdyFlg := 0, data1 := store_bytes 0 (data1 s) ps, LocalIndex := 36,
                           Crc := 0xAA + 0x55 + sum_list (map ucast ps),
                           MsgCRC := push_bit 8 (ucast c1), Phase := 4\<rparr>) c2)"
proof -
  let ?s2 = "s\<lparr>Phase := 2, RdyFlg := 0, Crc := 0xAA + 0x55, LocalIndex := 0\<rparr>"
  have "parser s (frame ps c1 c2) = parser ?s2 (ps @ [c1, c2])"
    using assms(1) by (simp add: frame_def step_def phase0_def phase1_def)
  also have "\<dots> = Some (phase4 (?s2\<lparr>data1 := store_bytes 0 (data1 ?s2) ps, LocalIndex := 36,
                           Crc := Crc ?s2 + sum_list (map ucast ps),
                           MsgCRC := push_bit 8 (ucast c1), Phase := 4\<rparr>) c2)"
    by (rule payload_run) (simp_all add: assms(2))
  finally show ?thesis by simp
qed

lemma eeg_record_nonempty: "eeg_record p a b \<noteq> []"
  by (simp add: eeg_record_def)

lemma unat_frame_sum:
  "unat (0xAA + 0x55 + sum_list (map ucast (ps :: 8 word list)) :: 16 word)
     = (0xAA + 0x55 + sum_list (map unat ps)) mod 2 ^ 16"
  by (simp add: unat_word_ariths unat_sum16 mod_simps)

lemma replicate_num: "replicate (numeral k) x = x # replicate (pred_numeral k) x"
  by (simp add: numeral_eq_Suc)

subsection \<open>Records in the printed text\<close>

lemma digit_char_in: "d < 16 \<Longrightarrow> digit_char d \<in> set ''0123456789ABCDEF''"
  unfolding digit_char_def by (rule nth_mem) simp

lemma digits_in:
  "2 \<le> base \<Longrightarrow> base \<le> 16 \<Longrightarrow> set (digits base n) \<subseteq> set ''0123456789ABCDEF''"
proof (induction base n rule: digits.induct)
  case (1 base n)
  show ?case
  proof (cases "n < base \<or> base < 2")
    case True
    with 1(2,3) have "n < 16" by simp
    then have "digit_char n \<in> set ''0123456789ABCDEF''" by (rule digit_char_in)
    moreover have "digits base n = [digit_char n]"
      using True by (simp add: digits.simps[of base n])
    ultimately show ?thesis by simp
  next
    case False
    then have "n mod base < base" by simp
    with 1(3) have "n mod base < 16" by simp
    then have a: "digit_char (n mod base) \<in> set ''0123456789ABCDEF''" by (rule digit_char_in)
    have b: "set (digits base (n div base)) \<subseteq> set ''0123456789ABCDEF''"
      using 1(1)[OF False 1(2,3)] .
    have "digits base n = digits base (n div base) @ [digit_char (n mod base)]"
      using False by (simp add: digits.simps[of base n])
    then show ?thesis using a b by simp
  qed
qed

lemma newline_not_digit: "newline \<notin> set ''0123456789ABCDEF''"
  by (simp add: newline_def)

lemma digits_no_newline: "2 \<le> base \<Longrightarrow> base \<le> 16 \<Longrightarrow> newline \<notin> set (digits base n)"
  using digits_in[of base n] newline_not_digit by blast

lemma fmt_d_no_newline: "newline \<notin> set (fmt_d i)"
  using digits_no_newline[of 10 "nat i"] digits_no_newline[of 10 "nat (- i)"]
  by (simp add: fmt_d_def) (simp add: newline_def)

lemma fmt_08X_no_newline: "newline \<notin> set (fmt_08X i)"
  using digits_no_newline[of 16 "nat (i mod 2 ^ 32)"]
  by (simp add: fmt_08X_def Let_def) (simp add: newline_def)

lemma records_Nil [simp]: "records [] = 0"
  by (simp add: records_def)

lemma records_Cons [simp]: "records (c # st) = (if c = newline then 1 else 0) + records st"
  by (simp add: records_def)

lemma records_append [simp]: "records (a @ b) = records a + records b"
  by (simp add: records_def)

lemma records_none: "newline \<notin> set cs \<Longrightarrow> records cs = 0"
  by (induction cs) auto

lemma records_fmt_d [simp]: "records (fmt_d i) = 0"
  using fmt_d_no_newline by (rule records_none)

lemma records_fmt_08X [simp]: "records (fmt_08X i) = 0"
  using fmt_08X_no_newline by (rule records_none)

lemma fixed6_no_newline: "newline \<notin> set (fixed6 n)"
  using digits_no_newline[of 10 "n div 10 ^ 6"] digits_no_newline[of 10 "n mod 10 ^ 6"]
  by (simp add: fixed6_def Let_def) (simp add: newline_def)

lemma fmt_f_no_newline: "newline \<notin> set (fmt_f u)"
  using fixed6_no_newline by (simp add: fmt_f_def) (simp add: newline_def)

lemma records_fmt_f [simp]: "records (fmt_f u) = 0"
  using fmt_f_no_newline by (rule records_none)

lemma records_gs_record [simp]: "records (gs_record p a b) = 1"
  by (simp add: gs_record_def) (simp add: newline_def)

lemma records_eeg_record [simp]: "records (eeg_record p a b) = 1"
  by (simp add: eeg_record_def) (simp add: newline_def)

lemma records_error_report [simp]: "records (error_report p) = 1"
  by (simp add: error_report_def) (simp add: newline_def)

subsection \<open>Whole frames\<close>

lemma phase1_skip: "Phase s = 1 \<Longrightarrow> b \<noteq> 0x55 \<Longrightarrow> step s b = Some s"
  by (simp add: step_def phase1_def)

lemma junk_run: "Phase s = 1 \<Longrightarrow> 0x55 \<notin> set junk \<Longrightarrow> parser s junk = Some s"
  by (induction junk) (simp_all add: phase1_skip)

lemma frame_accepted:
  assumes "Phase s = 0" "length (data1 s) = 18" "length ps = 36" "checksum_ok ps c1 c2"
  shows "parser s (frame ps c1 c2) =
           Some (s\<lparr>RdyFlg := 1, data1 := words_of ps, LocalIndex := 36,
                   Crc := 0xAA + 0x55 + sum_list (map ucast ps),
                   MsgCRC := 0xAA + 0x55 + sum_list (map ucast ps),
                   packet := packet s + 1,
                   out_gs := out_gs s @
                     (if sint (words_of ps ! 16) \<noteq> 255
                      then gs_record (uint (packet s + 1)) (sint (words_of ps ! 3))
                             (sint (words_of ps ! 16))
                      else []),
                   out_eeg := out_eeg s @
                     eeg_record (uint (packet s + 1)) (sint (words_of ps ! 0))
                       (sint (words_of ps ! 9)),
                   Phase := 0\<rparr>)"
proof -
  let ?s4 = "s\<lparr>RdyFlg := 0, data1 := store_bytes 0 (data1 s) ps, LocalIndex := 36,
                Crc := 0xAA + 0x55 + sum_list (map ucast ps),
                MsgCRC := push_bit 8 (ucast c1), Phase := 4\<rparr>"
  have d: "store_bytes 0 (data1 s) ps = words_of ps"
    using store_bytes_frame[OF assms(2,3)] .
  have "MsgCRC ?s4 + ucast c2 = Crc ?s4"
    using crc_test[of c1 c2 ps] assms(4) by simp
  from phase4_ok[OF this] show ?thesis
    unfolding frame_run[OF assms(1,3)] by (simp add: d)
qed

lemma frame_rejected:
  assumes "Phase s = 0" "length ps = 36" "\<not> checksum_ok ps c1 c2"
  shows "parser s (frame ps c1 c2) =
           Some (s\<lparr>RdyFlg := 0, data1 := store_bytes 0 (data1 s) ps, LocalIndex := 36,
                   Crc := 0xAA + 0x55 + sum_list (map ucast ps),
                   MsgCRC := push_bit 8 (ucast c1) + ucast c2,
                   out_stdout := out_stdout s @ error_report (uint (packet s)),
                   Phase := 0\<rparr>)"
proof -
  let ?s4 = "s\<lparr>RdyFlg := 0, data1 := store_bytes 0 (data1 s) ps, LocalIndex := 36,
                Crc := 0xAA + 0x55 + sum_list (map ucast ps),
                MsgCRC := push_bit 8 (ucast c1), Phase := 4\<rparr>"
  have "MsgCRC ?s4 + ucast c2 \<noteq> Crc ?s4"
    using crc_test[of c1 c2 ps] assms(3) by simp
  from phase4_bad[OF this] show ?thesis
    unfolding frame_run[OF assms(1,2)] by simp
qed

lemma back_within_phase0: "Phase s = 0 \<Longrightarrow> back_within n s bs"
  unfolding back_within_def list_ex_iff by (rule bexI[where x = 0]) (auto simp: min_def)

subsection \<open>Reachable states\<close>

lemma phase4_fields [simp]:
  "Phase (phase4 s b) = 0" "LocalIndex (phase4 s b) = LocalIndex s"
  "data1 (phase4 s b) = data1 s"
  by (simp_all add: phase4_def Let_def)

lemma step_phase2:
  assumes "Phase s = 2" "unat (LocalIndex s) < 36"
  shows "step s b =
           Some (s\<lparr>data1 := store_bytes (unat (LocalIndex s)) (data1 s) [b],
                   LocalIndex := LocalIndex s + 1, Crc := Crc s + ucast b,
                   Phase := (if unat (LocalIndex s) = 35 then 3 else 2)\<rparr>)"
proof (cases "unat (LocalIndex s) = 35")
  case True
  have "LocalIndex s + 1 = 36" using True li_36[of "LocalIndex s"] by simp
  with phase2_last[OF assms(1) True, of b] True show ?thesis by simp
next
  case False
  with assms(2) have "unat (LocalIndex s) < 35" by simp
  from phase2_mid[OF assms(1) this, of b] False assms(1) show ?thesis by simp
qed

lemma step_offset:
  assumes "unat (LocalIndex s) \<le> 36" "Phase s = 2 \<longrightarrow> unat (LocalIndex s) < 36"
    and "step s b = Some s'"
  shows "unat (LocalIndex s') \<le> 36 \<and> (Phase s' = 2 \<longrightarrow> unat (LocalIndex s') < 36)"
proof (cases "Phase s = 2")
  case True
  with assms(2) have lt: "unat (LocalIndex s) < 36" by simp
  from step_phase2[OF True lt, of b] assms(3) lt li_succ[OF lt]
  show ?thesis by auto
next
  case False
  with assms show ?thesis
    by (auto simp: step_def phase0_def phase1_def phase3_def split: if_splits)
qed

lemma reachable_offset:
  "reachable s \<Longrightarrow>
   unat (LocalIndex s) \<le> 36 \<and> (Phase s = 2 \<longrightarrow> unat (LocalIndex s) < 36)"
proof (induction rule: reachable.induct)
  case reachable_init
  show ?case by (simp add: init_state_def)
next
  case (reachable_step s b s')
  then show ?case using step_offset[of s b s'] by blast
qed

lemma reachable_step_total: "reachable s \<Longrightarrow> \<exists>s'. step s b = Some s'"
proof -
  assume "reachable s"
  then have i: "Phase s = 2 \<longrightarrow> unat (LocalIndex s) < 36"
    using reachable_offset by blast
  show ?thesis
  proof (cases "Phase s = 2")
    case True
    with i step_phase2[of s b] show ?thesis by simp
  next
    case False
    then show ?thesis by (simp add: step_def)
  qed
qed

lemma reachable_parser_total:
  "reachable s \<Longrightarrow> \<exists>t. parser s bs = Some t \<and> reachable t"
proof (induction bs arbitrary: s)
  case Nil
  then show ?case by simp
next
  case (Cons b bs)
  from reachable_step_total[OF Cons.prems, of b]
  obtain s' where st: "step s b = Some s'" by blast
  with Cons.prems have "reachable s'" by (rule reachable.reachable_step)
  from Cons.IH[OF this] st show ?case by simp
qed

subsection \<open>Payload words\<close>

lemma be16_low_zero: "be16 h 0 = push_bit 8 (ucast h)"
  using hi_or_lo_be16[of h 0] by simp

lemma words_of_nth:
  "2 * i + 1 < length ps \<Longrightarrow> words_of ps ! i = be16 (ps ! (2 * i)) (ps ! (2 * i + 1))"
proof (induction ps arbitrary: i rule: words_of.induct)
  case 1
  then show ?case by simp
next
  case (2 b)
  then show ?case by simp
next
  case (3 h l bs)
  show ?case
  proof (cases i)
    case 0
    then show ?thesis by simp
  next
    case (Suc j)
    with 3(2) have "2 * j + 1 < length bs" by simp
    from 3(1)[OF this] Suc show ?thesis by simp
  qed
qed

subsection \<open>The command frame\<close>

lemma nibble_byte_word:
  "(word_of_int (push_bit 4 (uint t) OR uint opt) :: 8 word) = push_bit 4 t OR opt"
  by (simp add: of_int_or_eq of_int_push_bit)

lemma uint_lt16: "unat (t :: 8 word) < 16 \<Longrightarrow> uint t < 16"
  using of_nat_less_iff[of "unat t" 16, where 'a=int] by simp

lemma nibble_byte_uint:
  assumes "unat (t :: 8 word) < 16" "unat (opt :: 8 word) < 16"
  shows "uint (word_of_int (push_bit 4 (uint t) OR uint opt) :: 8 word)
           = push_bit 4 (uint t) OR uint opt"
proof -
  have t: "0 \<le> uint t" "uint t < 16" using assms(1) by (simp_all add: uint_lt16)
  have o: "0 \<le> uint opt" "uint opt < 16" using assms(2) by (simp_all add: uint_lt16)
  have a: "take_bit 8 (push_bit 4 (uint t)) = push_bit 4 (uint t)"
    using t by (intro take_bit_int_eq_self) (simp_all add: push_bit_eq_mult)
  have b: "take_bit 8 (uint opt) = uint opt"
    using o by (intro take_bit_int_eq_self) simp_all
  have "take_bit 8 (push_bit 4 (uint t) OR uint opt) = push_bit 4 (uint t) OR uint opt"
    by (simp only: take_bit_or a b)
  then show ?thesis
    by (simp add: uint_word_of_int_eq)
qed

lemma byte_sum_mask: "uint (word_of_int k :: 8 word) = k AND 0xFF"
proof -
  have "(mask 8 :: int) = 0xFF" by (simp add: mask_eq_exp_minus_1)
  then show ?thesis by (simp add: uint_word_of_int_eq take_bit_eq_mask)
qed

subsection \<open>The hexadecimal field\<close>

lemma length_digits:
  "2 \<le> base \<Longrightarrow> n < base ^ k \<Longrightarrow> 0 < k \<Longrightarrow> length (digits base n) \<le> k"
proof (induction k arbitrary: n)
  case 0
  then show ?case by simp
next
  case (Suc k)
  show ?case
  proof (cases "n < base \<or> base < 2")
    case True
    then show ?thesis by (simp add: digits.simps[of base n])
  next
    case False
    then have ge: "base \<le> n" by simp
    have k: "0 < k"
    proof (rule ccontr)
      assume "\<not> 0 < k"
      with Suc.prems(2) ge show False by simp
    qed
    from Suc.prems(2) have "n < base ^ k * base" by (simp add: mult.commute)
    then have "n div base < base ^ k" by (rule less_mult_imp_div_less)
    from Suc.IH[OF Suc.prems(1) this k] False show ?thesis
      by (simp add: digits.simps[of base n])
  qed
qed

lemma length_fmt_08X: "length (fmt_08X i) = 8"
proof -
  have "i mod 2 ^ 32 < 2 ^ 32" by simp
  then have "nat (i mod 2 ^ 32) < 16 ^ 8" by simp
  then have "length (digits 16 (nat (i mod 2 ^ 32))) \<le> 8"
    by (intro length_digits) simp_all
  then show ?thesis by (simp add: fmt_08X_def Let_def)
qed

lemma fmt_08X_hex: "set (fmt_08X i) \<subseteq> set ''0123456789ABCDEF''"
  using digits_in[of 16 "nat (i mod 2 ^ 32)"]
  by (auto simp: fmt_08X_def Let_def)

subsection \<open>Counting records along a run\<close>

lemma gs_record_nonempty: "gs_record p a b \<noteq> []"
  by (simp add: gs_record_def)

lemma step_out_gs:
  assumes "step s b = Some s'"
  shows "out_gs s' = out_gs s @
           (if Phase s = 4 \<and> MsgCRC s + ucast b = Crc s \<and> sint (data1 s ! 16) \<noteq> 255
            then gs_record (uint (packet s + 1)) (sint (data1 s ! 3)) (sint (data1 s ! 16))
            else [])"
proof (cases "Phase s = 4")
  case True
  then have st: "s' = phase4 s b" using assms by (simp add: step_def)
  show ?thesis
  proof (cases "MsgCRC s + ucast b = Crc s")
    case ok: True
    show ?thesis unfolding st using True ok by (simp add: phase4_ok[OF ok])
  next
    case bad: False
    show ?thesis unfolding st using True bad by (simp add: phase4_bad[OF bad])
  qed
next
  case False
  with assms show ?thesis
    by (auto simp: step_def phase0_def phase1_def phase2_def phase3_def Let_def
        split: if_splits)
qed

lemma step_out_eeg:
  assumes "step s b = Some s'"
  shows "out_eeg s' = out_eeg s @
           (if Phase s = 4 \<and> MsgCRC s + ucast b = Crc s
            then eeg_record (uint (packet s + 1)) (sint (data1 s ! 0)) (sint (data1 s ! 9))
            else [])"
proof (cases "Phase s = 4")
  case True
  then have st: "s' = phase4 s b" using assms by (simp add: step_def)
  show ?thesis
  proof (cases "MsgCRC s + ucast b = Crc s")
    case ok: True
    show ?thesis unfolding st using True ok by (simp add: phase4_ok[OF ok])
  next
    case bad: False
    show ?thesis unfolding st using True bad by (simp add: phase4_bad[OF bad])
  qed
next
  case False
  with assms show ?thesis
    by (auto simp: step_def phase0_def phase1_def phase2_def phase3_def Let_def
        split: if_splits)
qed

lemma run_records_gs:
  "parser s bs = Some s' \<Longrightarrow>
   records (out_gs s') =
     records (out_gs s) + length (filter (\<lambda>d. sint (d ! 16) \<noteq> 255) (validated s bs))"
proof (induction bs arbitrary: s)
  case Nil
  then show ?case by simp
next
  case (Cons b bs)
  from Cons.prems obtain t where st: "step s b = Some t" and r: "parser t bs = Some s'"
    by (auto split: option.splits)
  from Cons.IH[OF r] step_out_gs[OF st] st show ?case by simp
qed

lemma run_records_eeg:
  "parser s bs = Some s' \<Longrightarrow>
   records (out_eeg s') = records (out_eeg s) + length (validated s bs)"
proof (induction bs arbitrary: s)
  case Nil
  then show ?case by simp
next
  case (Cons b bs)
  from Cons.prems obtain t where st: "step s b = Some t" and r: "parser t bs = Some s'"
    by (auto split: option.splits)
  from Cons.IH[OF r] step_out_eeg[OF st] st show ?case by simp
qed

lemma run_out_grows:
  "parser s bs = Some t \<Longrightarrow>
   (\<exists>x. out_gs t = out_gs s @ x) \<and> (\<exists>y. out_eeg t = out_eeg s @ y)"
proof (induction bs arbitrary: s)
  case Nil
  then show ?case by simp
next
  case (Cons b bs)
  from Cons.prems obtain u where st: "step s b = Some u" and r: "parser u bs = Some t"
    by (auto split: option.splits)
  from Cons.IH[OF r] obtain x y where "out_gs t = out_gs u @ x" "out_eeg t = out_eeg u @ y"
    by blast
  then show ?case
    by (simp add: step_out_gs[OF st] step_out_eeg[OF st])
qed

lemma silent_run_prefix:
  assumes "parser s bs = Some t" "out_gs t = out_gs s" "out_eeg t = out_eeg s"
  shows "\<exists>u. parser s (take k bs) = Some u \<and> out_gs u = out_gs s \<and> out_eeg u = out_eeg s"
proof -
  have "parser s (take k bs @ drop k bs) = Some t" using assms(1) by simp
  then obtain u where u: "parser s (take k bs) = Some u" and r: "parser u (drop k bs) = Some t"
    unfolding parser_append by (auto split: option.splits)
  from run_out_grows[OF u] obtain x y
    where ux: "out_gs u = out_gs s @ x" "out_eeg u = out_eeg s @ y" by blast
  from run_out_grows[OF r] obtain x' y'
    where tx: "out_gs t = out_gs u @ x'" "out_eeg t = out_eeg u @ y'" by blast
  from ux tx assms(2,3) have "x = []" "y = []" by simp_all
  with u ux show ?thesis by simp
qed

subsection \<open>The double product and its text\<close>

lemma dbl_0_076_nearest:
  "2 ^ 52 \<le> dbl_0_076 \<and> dbl_0_076 < 2 ^ 53
   \<and> \<bar>1000 * int dbl_0_076 - 76 * 2 ^ 56\<bar> \<le> 500"
  by (simp add: dbl_0_076_def)

lemma round_div_bounds:
  assumes "0 < d"
  shows "2 * (round_div a d * d) \<le> 2 * a + d \<and> 2 * a \<le> 2 * (round_div a d * d) + d"
proof -
  define q where "q = a div d"
  define r where "r = a mod d"
  have a: "a = q * d + r" by (simp add: q_def r_def)
  have r: "r < d" using assms by (simp add: r_def)
  have s: "(q + 1) * d = q * d + d" by (simp add: algebra_simps)
  have rd: "round_div a d =
     (if 2 * r < d then q else if d < 2 * r then q + 1 else if even q then q else q + 1)"
    by (simp add: round_div_def q_def r_def Let_def)
  show ?thesis
    unfolding rd using a r s by (auto simp: algebra_simps)
qed

lemma round_div_near:
  assumes "0 < d" "2 * a < 2 * (q * d) + d" "2 * (q * d) < 2 * a + d"
  shows "round_div a d = q"
proof -
  define p where "p = round_div a d"
  from round_div_bounds[OF assms(1), of a]
  have b: "2 * (p * d) \<le> 2 * a + d" "2 * a \<le> 2 * (p * d) + d" by (simp_all add: p_def)
  have "\<not> p < q"
  proof
    assume "p < q"
    then have "p + 1 \<le> q" by simp
    then have "(p + 1) * d \<le> q * d" by (rule mult_le_mono1)
    then have "p * d + d \<le> q * d" by (simp add: algebra_simps)
    with b(2) assms(3) show False by linarith
  qed
  moreover have "\<not> q < p"
  proof
    assume "q < p"
    then have "q + 1 \<le> p" by simp
    then have "(q + 1) * d \<le> p * d" by (rule mult_le_mono1)
    then have "q * d + d \<le> p * d" by (simp add: algebra_simps)
    with b(1) assms(2) show False by linarith
  qed
  ultimately show ?thesis by (simp add: p_def)
qed

lemma bit_length_le: "n < 2 ^ k \<Longrightarrow> bit_length n \<le> k"
proof (induction k arbitrary: n)
  case 0
  then show ?case by (simp add: bit_length.simps)
next
  case (Suc k)
  show ?case
  proof (cases "n = 0")
    case True
    then show ?thesis by (simp add: bit_length.simps)
  next
    case False
    from Suc.prems have "n div 2 < 2 ^ k" by simp
    from Suc.IH[OF this] False show ?thesis by (simp add: bit_length.simps[of n])
  qed
qed

lemma round53_near:
  assumes "n < 2 ^ 68"
  shows "round53 n \<le> n + 2 ^ 14 \<and> n \<le> round53 n + 2 ^ 14"
proof (cases "bit_length n \<le> 53")
  case True
  then show ?thesis by (simp add: round53_def)
next
  case False
  define k where "k = bit_length n - 53"
  have "bit_length n \<le> 68" using assms by (rule bit_length_le)
  then have k: "k \<le> 15" by (simp add: k_def)
  define d :: nat where "d = 2 ^ k"
  have d0: "0 < d" by (simp add: d_def)
  have "d \<le> 2 ^ 15" unfolding d_def using k by (intro power_increasing) simp_all
  then have d15: "d \<le> 32768" by simp
  have r: "round53 n = round_div n d * d"
    using False by (simp add: round53_def k_def d_def Let_def)
  from round_div_bounds[OF d0, of n] d15 show ?thesis
    unfolding r by simp
qed

lemma fmt_f_mul_0_076:
  assumes "- 32768 \<le> x" "x \<le> 32767"
  shows "fmt_f (mul_0_076 x) = (if x < 0 then ''-'' else []) @ fixed6 (nat \<bar>x\<bar> * 76000)"
proof -
  define m where "m = nat \<bar>x\<bar>"
  define R where "R = round53 (m * 5476377146882523)"
  have m: "m \<le> 32768" using assms by (simp add: m_def)
  then have "m * 5476377146882523 < 2 ^ 68" by simp
  from round53_near[OF this]
  have R: "R \<le> m * 5476377146882523 + 16384" "m * 5476377146882523 \<le> R + 16384"
    by (simp_all add: R_def)
  have mul: "mul_0_076 x = sgn x * int R"
    by (simp add: mul_0_076_def dbl_0_076_def m_def R_def)
  have R0: "x \<noteq> 0 \<Longrightarrow> 0 < R"
  proof -
    assume "x \<noteq> 0"
    then have "1 \<le> m" by (simp add: m_def)
    with R(2) show "0 < R" by linarith
  qed
  have Rz: "x = 0 \<Longrightarrow> R = 0"
    by (simp add: R_def m_def round53_def bit_length.simps)
  have neg: "(mul_0_076 x < 0) = (x < 0)"
  proof (cases "x < 0")
    case True
    with R0 have "0 < R" by simp
    with True show ?thesis by (simp add: mul)
  next
    case False
    then have "0 \<le> sgn x * int R" by (simp add: sgn_if)
    with False show ?thesis by (simp add: mul)
  qed
  have ab: "nat \<bar>mul_0_076 x\<bar> = R"
  proof (cases "x = 0")
    case True
    then have "mul_0_076 x = 0" unfolding mul by simp
    moreover from True have "R = 0" by (rule Rz)
    ultimately show ?thesis by simp
  next
    case False
    then show ?thesis unfolding mul by (simp add: abs_mult sgn_if)
  qed
  have "round_div (R * 10 ^ 6) (2 ^ 56) = m * 76000"
  proof (rule round_div_near)
    show "0 < (2::nat) ^ 56" by simp
    show "2 * (R * 10 ^ 6) < 2 * (m * 76000 * 2 ^ 56) + 2 ^ 56"
      using R(1) m by simp
    show "2 * (m * 76000 * 2 ^ 56) < 2 * (R * 10 ^ 6) + 2 ^ 56"
      using R(2) m by simp
  qed
  then show ?thesis
    by (simp add: fmt_f_def neg ab m_def)
qed

subsection \<open>Digits padded with zeros\<close>

lemma map_upt_shift: "map f [0..<Suc k] = f 0 # map (\<lambda>j. f (Suc j)) [0..<k]"
  by (simp add: upt_conv_Cons map_Suc_upt[symmetric] del: upt_Suc)

lemma padded_digits:
  assumes "2 \<le> base"
  shows "n < base ^ Suc k \<Longrightarrow>
     replicate (Suc k - length (digits base n)) (digit_char 0) @ digits base n
       = rev (map (\<lambda>j. digit_char (n div base ^ j mod base)) [0..<Suc k])"
proof (induction k arbitrary: n)
  case 0
  then have "n < base" by simp
  then show ?case by (simp add: digits.simps[of base n])
next
  case (Suc k)
  show ?case
  proof (cases "n < base")
    case True
    have z: "\<And>j. n div base ^ Suc j = 0"
    proof -
      fix j
      have "base ^ 1 \<le> base ^ Suc j" using assms by (intro power_increasing) simp_all
      then have "base \<le> base ^ Suc j" by (simp only: power_one_right)
      with True have "n < base ^ Suc j" by (rule less_le_trans)
      then show "n div base ^ Suc j = 0" by (rule div_less)
    qed
    have "map (\<lambda>j. digit_char (n div base ^ j mod base)) [0..<Suc (Suc k)]
            = digit_char n # map (\<lambda>j. digit_char 0) [0..<Suc k]"
      unfolding map_upt_shift[of _ "Suc k"] using True by (simp only: z) simp
    also have "map (\<lambda>j. digit_char 0) [0..<Suc k] = replicate (Suc k) (digit_char 0)"
      by (simp add: map_replicate_const)
    finally show ?thesis using True
      by (simp add: digits.simps[of base n] replicate_append_same)
  next
    case False
    from Suc.prems have "n < base ^ Suc k * base" by (simp add: mult.commute)
    then have "n div base < base ^ Suc k" by (rule less_mult_imp_div_less)
    from Suc.IH[OF this]
    have ih: "replicate (Suc k - length (digits base (n div base))) (digit_char 0)
                @ digits base (n div base)
              = rev (map (\<lambda>j. digit_char (n div base ^ Suc j mod base)) [0..<Suc k])"
      by (simp add: div_mult2_eq)
    have d: "digits base n = digits base (n div base) @ [digit_char (n mod base)]"
      using False assms by (simp add: digits.simps[of base n])
    have "replicate (Suc (Suc k) - length (digits base n)) (digit_char 0) @ digits base n
            = (replicate (Suc k - length (digits base (n div base))) (digit_char 0)
                 @ digits base (n div base)) @ [digit_char (n mod base)]"
      unfolding d by simp
    also have "\<dots> = rev (map (\<lambda>j. digit_char (n div base ^ j mod base)) [0..<Suc (Suc k)])"
      unfolding ih map_upt_shift[of _ "Suc k"] by simp
    finally show ?thesis .
  qed
qed

lemma fmt_08X_slot:
  assumes "0 \<le> i" "i < 65536"
  shows "fmt_08X i =
     ''0000'' @ [digit_char (nat i div 4096), digit_char (nat i div 256 mod 16),
                 digit_char (nat i div 16 mod 16), digit_char (nat i mod 16)]"
proof -
  define n where "n = nat i"
  have n: "n < 65536" using assms by (simp add: n_def)
  have e: "i mod 2 ^ 32 = i" using assms by simp
  have "n < 16 ^ Suc 7" using n by simp
  from padded_digits[OF _ this]
  have "replicate (8 - length (digits 16 n)) (CHR ''0'') @ digits 16 n
          = rev (map (\<lambda>j. digit_char (n div 16 ^ j mod 16)) [0..<8])"
    by (simp add: digit_char_def)
  also have "\<dots> = ''0000'' @ [digit_char (n div 4096), digit_char (n div 256 mod 16),
                 digit_char (n div 16 mod 16), digit_char (n mod 16)]"
  proof -
    have u: "[0..<8::nat] = [0, 1, 2, 3, 4, 5, 6, 7]"
      by (simp add: eval_nat_numeral)
    have h: "n div 16 ^ 4 = 0" "n div 16 ^ 5 = 0" "n div 16 ^ 6 = 0" "n div 16 ^ 7 = 0"
      using n by simp_all
    have t: "n div 4096 mod 16 = n div 4096"
      using n by simp
    have p: "(16::nat) ^ 2 = 256" "(16::nat) ^ 3 = 4096" by simp_all
    show ?thesis
      unfolding u by (simp only: list.map rev.simps append.simps h t p power_0 power_one_right
          div_by_1 mod_0 digit_char_def) simp
  qed
  finally show ?thesis
    unfolding fmt_08X_def Let_def e by (simp only: n_def)
qed

lemma sint16_range: "- 32768 \<le> sint (w :: 16 word) \<and> sint w \<le> 32767"
  using sint_ge[of w] sint_lt[of w] by simp

lemma sint16_nonneg:
  assumes "0 \<le> sint (w :: 16 word)"
  shows "sint w = int (unat w)" and "sint w < 65536"
proof -
  have b: "uint w < 65536" using unsigned_less[of w, where 'a=int] by simp
  from assms b have u: "sint w = uint w"
    unfolding sint16[of w] by (simp split: if_splits)
  then show "sint w = int (unat w)" by simp
  from sint16_range[of w] show "sint w < 65536" by simp
qed

subsection \<open>Inside a frame\<close>

lemma stuck_phase1:
  assumes "Phase s = 1" "0x55 \<notin> set bs"
  shows "\<not> back_within n s bs"
proof -
  have "\<And>k. parser s (take k bs) = Some s"
  proof -
    fix k
    have "0x55 \<notin> set (take k bs)" using assms(2) by (auto dest: in_set_takeD)
    with assms(1) show "parser s (take k bs) = Some s" by (rule junk_run)
  qed
  then show ?thesis using assms(1) by (simp add: back_within_def list_ex_iff)
qed

lemma collect_partial:
  "Phase s = 2 \<Longrightarrow> unat (LocalIndex s) + length qs < 36 \<Longrightarrow>
   \<exists>u. parser s qs = Some u \<and> Phase u = 2"
proof (induction qs arbitrary: s)
  case Nil
  then show ?case by simp
next
  case (Cons b qs)
  from Cons.prems have lt: "unat (LocalIndex s) < 35" by simp
  let ?t = "s\<lparr>data1 := store_bytes (unat (LocalIndex s)) (data1 s) [b],
            LocalIndex := LocalIndex s + 1, Crc := Crc s + ucast b\<rparr>"
  have st: "step s b = Some ?t" using phase2_mid[OF Cons.prems(1) lt] .
  have li: "unat (LocalIndex ?t) = Suc (unat (LocalIndex s))"
    using lt li_succ[of "LocalIndex s"] by simp
  have "\<exists>u. parser ?t qs = Some u \<and> Phase u = 2"
    using Cons.prems li by (intro Cons.IH) simp_all
  with st show ?case by simp
qed

lemma frame_prefix_phase:
  assumes "Phase s = 0" "length ps = 36" "0 < k" "k < 40"
  shows "\<exists>u. parser s (take k (frame ps c1 c2)) = Some u \<and> Phase u \<noteq> 0"
proof (cases "k = 1")
  case True
  with assms(1) show ?thesis
    by (simp add: frame_def step_def phase0_def)
next
  case False
  define j where "j = k - 2"
  from False assms(3) have k: "k = Suc (Suc j)" by (simp add: j_def)
  with assms(4) have j: "j < 38" by simp
  let ?s2 = "s\<lparr>Phase := 2, RdyFlg := 0, Crc := 0xAA + 0x55, LocalIndex := 0\<rparr>"
  have h: "parser s (take k (frame ps c1 c2)) = parser ?s2 (take j (ps @ [c1, c2]))"
    using assms(1) by (simp add: k frame_def step_def phase0_def phase1_def)
  from j consider "j < 36" | "j = 36" | "j = 37" by fastforce
  then show ?thesis
  proof cases
    case 1
    then have t: "take j (ps @ [c1, c2]) = take j ps" using assms(2) by simp
    have "\<exists>u. parser ?s2 (take j ps) = Some u \<and> Phase u = 2"
      using 1 assms(2) by (intro collect_partial) simp_all
    then show ?thesis unfolding h t by auto
  next
    case 2
    then have t: "take j (ps @ [c1, c2]) = ps" using assms(2) by simp
    have "ps \<noteq> []" using assms(2) by auto
    from collect_run[of ?s2 ps] this assms(2) show ?thesis unfolding h t by simp
  next
    case 3
    then have t: "take j (ps @ [c1, c2]) = ps @ [c1]" using assms(2) by simp
    have "ps \<noteq> []" using assms(2) by auto
    from collect_run[of ?s2 ps] this assms(2) show ?thesis
      unfolding h t by (simp add: parser_append step_def phase3_def)
  qed
qed

lemma record_before_phase0:
  assumes "Phase s = 0" "length (data1 s) = 18" "length ps = 36" "checksum_ok ps c1 c2"
  shows "\<not> back_within n (s\<lparr>Phase := 1, Crc := 0xAA\<rparr>) (0x55 # ps @ [c1, c2] @ zs)"
proof -
  let ?s1 = "s\<lparr>Phase := 1, Crc := 0xAA\<rparr>"
  let ?C = "0x55 # ps @ [c1, c2] @ zs"
  have s1: "step s 0xAA = Some ?s1" using assms(1) by (simp add: step_def phase0_def)
  have F: "0xAA # ?C = frame ps c1 c2 @ zs" by (simp add: frame_def)
  have l: "length (frame ps c1 c2) = 40" using assms(3) by (simp add: frame_def)
  from frame_accepted[OF assms] obtain s' where r: "parser s (frame ps c1 c2) = Some s'"
    and e: "out_eeg s' \<noteq> out_eeg s"
    by (simp add: eeg_record_nonempty)
  have key: "\<not> (Phase t = 0 \<and> out_gs t = out_gs ?s1 \<and> out_eeg t = out_eeg ?s1)"
    if t: "parser ?s1 (take k ?C) = Some t" for k t
  proof (cases "Suc k < 40")
    case True
    have "parser s (take (Suc k) (frame ps c1 c2)) = parser s (take (Suc k) (0xAA # ?C))"
      unfolding F using True l by simp
    also have "\<dots> = Some t" using s1 t by simp
    finally have "parser s (take (Suc k) (frame ps c1 c2)) = Some t" .
    with frame_prefix_phase[OF assms(1,3) _ True, of c1 c2] show ?thesis by auto
  next
    case False
    have "parser s (frame ps c1 c2 @ take (Suc k - 40) zs) = parser s (take (Suc k) (0xAA # ?C))"
      unfolding F using False l by simp
    also have "\<dots> = Some t" using s1 t by simp
    finally have "parser s' (take (Suc k - 40) zs) = Some t"
      by (simp add: parser_append r)
    from run_out_grows[OF this] obtain y where "out_eeg t = out_eeg s' @ y" by blast
    moreover from frame_accepted[OF assms] r
    have "out_eeg s' = out_eeg s @
            eeg_record (uint (packet s + 1)) (sint (words_of ps ! 0)) (sint (words_of ps ! 9))"
      by simp
    ultimately have "out_eeg t \<noteq> out_eeg s" by (simp add: eeg_record_nonempty)
    then show ?thesis by simp
  qed
  show ?thesis
    unfolding back_within_def list_ex_iff using key by (auto split: option.splits)
qed

section \<open>Properties\<close>

subsection \<open>The checksum test\<close>

text \<open>
  C1. A frame (magic bytes, 36 payload bytes, two checksum bytes) met in phase 0 is
  accepted, that is the packet counter is incremented and a record is printed on
  \<open>out_eeg\<close>, if and only if \<open>(c1 << 8) + c2\<close> equals the sum of the 38 preceding bytes
  modulo \<open>2 ^ 16\<close>; the checksum bytes are not added to \<open>Crc\<close>, which holds that sum
  when the frame ends.
\<close>

theorem C1_checksum_decides_acceptance:
  assumes "Phase s = 0" and "length (data1 s) = 18" and "length ps = 36"
  shows "\<exists>s'. parser s (frame ps c1 c2) = Some s'
           \<and> unat (Crc s') = (0xAA + 0x55 + sum_list (map unat ps)) mod 2 ^ 16
           \<and> (packet s' = packet s + 1 \<longleftrightarrow> checksum_ok ps c1 c2)
           \<and> (out_eeg s' \<noteq> out_eeg s \<longleftrightarrow> checksum_ok ps c1 c2)
           \<and> (checksum_ok ps c1 c2 \<longrightarrow>
                 RdyFlg s' = 1 \<and> data1 s' = words_of ps
                 \<and> out_eeg s' = out_eeg s @
                      eeg_record (uint (packet s + 1)) (sint (words_of ps ! 0))
                        (sint (words_of ps ! 9)))
           \<and> (\<not> checksum_ok ps c1 c2 \<longrightarrow>
                 packet s' = packet s \<and> out_eeg s' = out_eeg s \<and> out_gs s' = out_gs s)"
proof -
  let ?s4 = "s\<lparr>RdyFlg := 0, data1 := store_bytes 0 (data1 s) ps, LocalIndex := 36,
                Crc := 0xAA + 0x55 + sum_list (map ucast ps),
                MsgCRC := push_bit 8 (ucast c1), Phase := 4\<rparr>"
  have run: "parser s (frame ps c1 c2) = Some (phase4 ?s4 c2)"
    using frame_run[OF assms(1,3)] .
  have d: "store_bytes 0 (data1 s) ps = words_of ps"
    using store_bytes_frame[OF assms(2,3)] .
  have t: "(MsgCRC ?s4 + ucast c2 = Crc ?s4) = checksum_ok ps c1 c2"
    using crc_test[of c1 c2 ps] by simp
  have crc: "unat (Crc ?s4) = (0xAA + 0x55 + sum_list (map unat ps)) mod 2 ^ 16"
    using unat_frame_sum[of ps] by simp
  show ?thesis
  proof (cases "checksum_ok ps c1 c2")
    case True
    then have "MsgCRC ?s4 + ucast c2 = Crc ?s4" using t by simp
    from phase4_ok[OF this] True show ?thesis
      unfolding run using crc by (simp add: d eeg_record_nonempty)
  next
    case False
    then have "MsgCRC ?s4 + ucast c2 \<noteq> Crc ?s4" using t by simp
    from phase4_bad[OF this] False show ?thesis
      unfolding run using crc by (simp add: d)
  qed
qed

theorem C1_witness:
  "Phase init_state = 0 \<and> length (data1 init_state) = 18
   \<and> length (replicate 36 (1 :: 8 word)) = 36
   \<and> checksum_ok (replicate 36 1) 0x01 0x23 \<and> \<not> checksum_ok (replicate 36 1) 0x01 0x22
   \<and> (\<exists>s'. parser init_state (frame (replicate 36 1) 0x01 0x23) = Some s'
          \<and> unat (Crc s') = 0x0123 \<and> packet s' = 1 \<and> RdyFlg s' = 1
          \<and> data1 s' = replicate 18 0x0101
          \<and> out_eeg s' = eeg_record 1 257 257)
   \<and> (\<exists>s'. parser init_state (frame (replicate 36 1) 0x01 0x22) = Some s'
          \<and> packet s' = 0 \<and> out_eeg s' = [] \<and> out_gs s' = [])"
  using C1_checksum_decides_acceptance [of init_state "replicate 36 1" "0x01" "0x23"]
    C1_checksum_decides_acceptance [of init_state "replicate 36 1" "0x01" "0x22"]
  by (simp add: init_state_def checksum_ok_def replicate_num be16_def) blast

subsection \<open>The second header byte\<close>

text \<open>
  C2 (as amended). In phase 1 a byte other than \<open>0x55\<close>, \<open>0xAA\<close> included, is not taken as
  a new first header byte, and the parser stays in phase 1 with \<open>Crc\<close> as it was; fed
  \<open>0xAA 0xAA 0x55\<close> in phase 0, the parser is in the data collection phase after the
  third byte, at payload offset 0 and with \<open>Crc = 0xAA + 0x55\<close>.
\<close>

theorem C2_phase1_waits_for_0x55:
  "(Phase s = 1 \<and> b \<noteq> 0x55 \<longrightarrow>
      (\<exists>s'. step s b = Some s' \<and> Phase s' = 1 \<and> Crc s' = Crc s))
   \<and> (Phase s = 0 \<longrightarrow>
      (\<exists>s'. parser s [0xAA, 0xAA, 0x55] = Some s'
          \<and> Phase s' = 2 \<and> LocalIndex s' = 0 \<and> Crc s' = 0xAA + 0x55))"
  by (simp add: step_def phase0_def phase1_def)

theorem C2_witness:
  "(Phase (init_state\<lparr>Phase := 1, Crc := 0xAA\<rparr>) = 1 \<and> (0xAA :: 8 word) \<noteq> 0x55)
   \<and> (\<exists>s'. step (init_state\<lparr>Phase := 1, Crc := 0xAA\<rparr>) 0xAA = Some s'
          \<and> Phase s' = 1 \<and> Crc s' = 0xAA)
   \<and> Phase init_state = 0
   \<and> (\<exists>s'. parser init_state [0xAA, 0xAA, 0x55] = Some s'
          \<and> Phase s' = 2 \<and> LocalIndex s' = 0 \<and> Crc s' = 0xFF)"
  using C2_phase1_waits_for_0x55 [of "init_state\<lparr>Phase := 1, Crc := 0xAA\<rparr>" "0xAA"]
    C2_phase1_waits_for_0x55 [of init_state "0xAA"]
  by (simp add: init_state_def)

text \<open>
  The claim as the specification words it fails: after \<open>0xAA 0xAA\<close> the parser is not
  in phase 0, and after \<open>0xAA 0xAA 0x55\<close> it is in the data collection phase.
\<close>

theorem C2_counterexample:
  "map_option Phase (parser init_state [0xAA, 0xAA]) \<noteq> Some 0
   \<and> map_option Phase (parser init_state [0xAA, 0xAA, 0x55]) = Some 2"
  by (simp add: init_state_def step_def phase0_def phase1_def)

subsection \<open>Payload words\<close>

text \<open>
  C3. In the data collection phase, at payload offset \<open>k = LocalIndex\<close> below 36: if \<open>k\<close> is
  even, \<open>data1[k / 2]\<close> becomes the byte shifted left by 8, read as a signed 16-bit value,
  with a zero low byte; if \<open>k\<close> is odd, the byte is OR-ed into \<open>data1[k / 2]\<close>. After the 36
  payload bytes every word of the buffer is the signed big-endian value of its two
  bytes; \<open>0x80 0x00\<close> is \<open>-32768\<close> and \<open>0x7F 0xFF\<close> is \<open>32767\<close>.
\<close>

theorem C3_payload_words_signed_big_endian:
  "(Phase s = 2 \<and> unat (LocalIndex s) < 36 \<and> even (unat (LocalIndex s)) \<longrightarrow>
      (\<exists>s'. step s b = Some s'
          \<and> data1 s' = (data1 s)[unat (LocalIndex s) div 2 := push_bit 8 (ucast b)]
          \<and> sint (push_bit 8 (ucast b) :: 16 word)
              = (if unat b < 128 then int (256 * unat b) else int (256 * unat b) - 65536)
          \<and> (push_bit 8 (ucast b) :: 16 word) AND 0xFF = 0))
   \<and> (Phase s = 2 \<and> unat (LocalIndex s) < 36 \<and> odd (unat (LocalIndex s)) \<longrightarrow>
      (\<exists>s'. step s b = Some s'
          \<and> data1 s' = (data1 s)[unat (LocalIndex s) div 2 :=
                           (data1 s ! (unat (LocalIndex s) div 2)) OR ucast b]))
   \<and> (Phase s = 2 \<and> LocalIndex s = 0 \<and> length (data1 s) = 18 \<and> length ps = 36 \<longrightarrow>
      (\<exists>s'. parser s ps = Some s' \<and> Phase s' = 3
          \<and> (\<forall>i<18. sint (data1 s' ! i) =
                (if unat (ps ! (2 * i)) < 128
                 then int (256 * unat (ps ! (2 * i)) + unat (ps ! (2 * i + 1)))
                 else int (256 * unat (ps ! (2 * i)) + unat (ps ! (2 * i + 1))) - 65536))))
   \<and> sint (be16 0x80 0x00) = - 32768 \<and> sint (be16 0x7F 0xFF) = 32767"
proof (intro conjI impI)
  assume a: "Phase s = 2 \<and> unat (LocalIndex s) < 36 \<and> even (unat (LocalIndex s))"
  have z: "(push_bit 8 (ucast b) :: 16 word) AND 0xFF = 0"
    using hi_lo_disjoint[of b "0xFF"] by simp
  have v: "sint (push_bit 8 (ucast b) :: 16 word)
              = (if unat b < 128 then int (256 * unat b) else int (256 * unat b) - 65536)"
    using sint_be16[of b 0] by (simp only: be16_low_zero) simp
  from a step_phase2[of s b] z v
  show "\<exists>s'. step s b = Some s'
          \<and> data1 s' = (data1 s)[unat (LocalIndex s) div 2 := push_bit 8 (ucast b)]
          \<and> sint (push_bit 8 (ucast b) :: 16 word)
              = (if unat b < 128 then int (256 * unat b) else int (256 * unat b) - 65536)
          \<and> (push_bit 8 (ucast b) :: 16 word) AND 0xFF = 0"
    by simp
next
  assume a: "Phase s = 2 \<and> unat (LocalIndex s) < 36 \<and> odd (unat (LocalIndex s))"
  from a step_phase2[of s b]
  show "\<exists>s'. step s b = Some s'
          \<and> data1 s' = (data1 s)[unat (LocalIndex s) div 2 :=
                           (data1 s ! (unat (LocalIndex s) div 2)) OR ucast b]"
    by simp
next
  assume a: "Phase s = 2 \<and> LocalIndex s = 0 \<and> length (data1 s) = 18 \<and> length ps = 36"
  then have ne: "ps \<noteq> []" and l: "unat (LocalIndex s) + length ps = 36" by auto
  from a have d: "store_bytes 0 (data1 s) ps = words_of ps"
    by (simp add: store_bytes_frame)
  have w: "\<forall>i<18. sint (words_of ps ! i) =
                (if unat (ps ! (2 * i)) < 128
                 then int (256 * unat (ps ! (2 * i)) + unat (ps ! (2 * i + 1)))
                 else int (256 * unat (ps ! (2 * i)) + unat (ps ! (2 * i + 1))) - 65536)"
  proof (intro allI impI)
    fix i :: nat
    assume "i < 18"
    with a have "2 * i + 1 < length ps" by simp
    then have "words_of ps ! i = be16 (ps ! (2 * i)) (ps ! (2 * i + 1))"
      by (rule words_of_nth)
    then show "sint (words_of ps ! i) =
                (if unat (ps ! (2 * i)) < 128
                 then int (256 * unat (ps ! (2 * i)) + unat (ps ! (2 * i + 1)))
                 else int (256 * unat (ps ! (2 * i)) + unat (ps ! (2 * i + 1))) - 65536)"
      by (simp only: sint_be16)
  qed
  from a have p: "Phase s = 2" by simp
  from collect_run[OF p l ne] a d w
  show "\<exists>s'. parser s ps = Some s' \<and> Phase s' = 3
          \<and> (\<forall>i<18. sint (data1 s' ! i) =
                (if unat (ps ! (2 * i)) < 128
                 then int (256 * unat (ps ! (2 * i)) + unat (ps ! (2 * i + 1)))
                 else int (256 * unat (ps ! (2 * i)) + unat (ps ! (2 * i + 1))) - 65536))"
    by simp
next
  show "sint (be16 0x80 0x00) = - 32768" by (simp add: be16_def)
  show "sint (be16 0x7F 0xFF) = 32767" by (simp add: be16_def)
qed

theorem C3_witness:
  "(Phase (init_state\<lparr>Phase := 2, Crc := 0xFF\<rparr>) = 2 \<and> unat (LocalIndex (init_state\<lparr>Phase := 2, Crc := 0xFF\<rparr>)) < 36 \<and> even (unat (LocalIndex (init_state\<lparr>Phase := 2, Crc := 0xFF\<rparr>))))
   \<and> (\<exists>s'. step (init_state\<lparr>Phase := 2, Crc := 0xFF\<rparr>) 0x80 = Some s' \<and> data1 s' = 0x8000 # replicate 17 0
          \<and> sint (0x8000 :: 16 word) = - 32768)
   \<and> (Phase (init_state\<lparr>Phase := 2, Crc := 0xFF, LocalIndex := 1, data1 := 0x7F00 # replicate 17 0\<rparr>) = 2 \<and> unat (LocalIndex (init_state\<lparr>Phase := 2, Crc := 0xFF, LocalIndex := 1, data1 := 0x7F00 # replicate 17 0\<rparr>)) < 36 \<and> odd (unat (LocalIndex (init_state\<lparr>Phase := 2, Crc := 0xFF, LocalIndex := 1, data1 := 0x7F00 # replicate 17 0\<rparr>))))
   \<and> (\<exists>s'. step (init_state\<lparr>Phase := 2, Crc := 0xFF, LocalIndex := 1, data1 := 0x7F00 # replicate 17 0\<rparr>) 0xFF = Some s' \<and> data1 s' = 0x7FFF # replicate 17 0)
   \<and> (Phase (init_state\<lparr>Phase := 2, Crc := 0xFF\<rparr>) = 2 \<and> LocalIndex (init_state\<lparr>Phase := 2, Crc := 0xFF\<rparr>) = 0 \<and> length (data1 (init_state\<lparr>Phase := 2, Crc := 0xFF\<rparr>)) = 18 \<and> length ([0x80, 0x00, 0x7F, 0xFF] @ replicate 32 0 :: 8 word list) = 36)
   \<and> (\<exists>s'. parser (init_state\<lparr>Phase := 2, Crc := 0xFF\<rparr>) ([0x80, 0x00, 0x7F, 0xFF] @ replicate 32 0) = Some s' \<and> Phase s' = 3
          \<and> sint (data1 s' ! 0) = - 32768 \<and> sint (data1 s' ! 1) = 32767
          \<and> sint (data1 s' ! 17) = 0)"
proof -
  have h1: "Phase (init_state\<lparr>Phase := 2, Crc := 0xFF\<rparr>) = 2 \<and> unat (LocalIndex (init_state\<lparr>Phase := 2, Crc := 0xFF\<rparr>)) < 36 \<and> even (unat (LocalIndex (init_state\<lparr>Phase := 2, Crc := 0xFF\<rparr>)))"
    by (simp add: init_state_def)
  have h2: "Phase (init_state\<lparr>Phase := 2, Crc := 0xFF, LocalIndex := 1, data1 := 0x7F00 # replicate 17 0\<rparr>) = 2 \<and> unat (LocalIndex (init_state\<lparr>Phase := 2, Crc := 0xFF, LocalIndex := 1, data1 := 0x7F00 # replicate 17 0\<rparr>)) < 36 \<and> odd (unat (LocalIndex (init_state\<lparr>Phase := 2, Crc := 0xFF, LocalIndex := 1, data1 := 0x7F00 # replicate 17 0\<rparr>)))"
    by simp
  have h3: "Phase (init_state\<lparr>Phase := 2, Crc := 0xFF\<rparr>) = 2 \<and> LocalIndex (init_state\<lparr>Phase := 2, Crc := 0xFF\<rparr>) = 0 \<and> length (data1 (init_state\<lparr>Phase := 2, Crc := 0xFF\<rparr>)) = 18 \<and> length ([0x80, 0x00, 0x7F, 0xFF] @ replicate 32 0 :: 8 word list) = 36"
    by (simp add: init_state_def)
  note t1 = C3_payload_words_signed_big_endian [of "init_state\<lparr>Phase := 2, Crc := 0xFF\<rparr>" "0x80" "[0x80, 0x00, 0x7F, 0xFF] @ replicate 32 0", THEN conjunct1]
  note t2 = C3_payload_words_signed_big_endian [of "init_state\<lparr>Phase := 2, Crc := 0xFF, LocalIndex := 1, data1 := 0x7F00 # replicate 17 0\<rparr>" "0xFF" "[0x80, 0x00, 0x7F, 0xFF] @ replicate 32 0",
      THEN conjunct2, THEN conjunct1]
  note t3 = C3_payload_words_signed_big_endian [of "init_state\<lparr>Phase := 2, Crc := 0xFF\<rparr>" "0x80" "[0x80, 0x00, 0x7F, 0xFF] @ replicate 32 0",
      THEN conjunct2, THEN conjunct2, THEN conjunct1]
  from mp[OF t1 h1]
  have c1: "\<exists>s'. step (init_state\<lparr>Phase := 2, Crc := 0xFF\<rparr>) 0x80 = Some s' \<and> data1 s' = 0x8000 # replicate 17 0
          \<and> sint (0x8000 :: 16 word) = - 32768"
    by (simp add: init_state_def replicate_num)
  from mp[OF t2 h2]
  have c2: "\<exists>s'. step (init_state\<lparr>Phase := 2, Crc := 0xFF, LocalIndex := 1, data1 := 0x7F00 # replicate 17 0\<rparr>) 0xFF = Some s' \<and> data1 s' = 0x7FFF # replicate 17 0"
    by simp
  from mp[OF t3 h3]
  obtain s' where r: "parser (init_state\<lparr>Phase := 2, Crc := 0xFF\<rparr>) ([0x80, 0x00, 0x7F, 0xFF] @ replicate 32 0) = Some s'" "Phase s' = 3"
    and w: "\<forall>i<18. sint (data1 s' ! i) =
                (if unat (([0x80, 0x00, 0x7F, 0xFF] @ replicate 32 0 :: 8 word list) ! (2 * i)) < 128
                 then int (256 * unat (([0x80, 0x00, 0x7F, 0xFF] @ replicate 32 0 :: 8 word list) ! (2 * i)) + unat (([0x80, 0x00, 0x7F, 0xFF] @ replicate 32 0 :: 8 word list) ! (2 * i + 1)))
                 else int (256 * unat (([0x80, 0x00, 0x7F, 0xFF] @ replicate 32 0 :: 8 word list) ! (2 * i)) + unat (([0x80, 0x00, 0x7F, 0xFF] @ replicate 32 0 :: 8 word list) ! (2 * i + 1))) - 65536)"
    by (elim exE conjE) (rule that, assumption+)
  from w[rule_format, of 0] have w0: "sint (data1 s' ! 0) = - 32768" by simp
  from w[rule_format, of 1] have w1: "sint (data1 s' ! 1) = 32767" by simp
  from w[rule_format, of 17] have w17: "sint (data1 s' ! 17) = 0" by (simp add: nth_append)
  from r w0 w1 w17 have c3: "\<exists>s'. parser (init_state\<lparr>Phase := 2, Crc := 0xFF\<rparr>) ([0x80, 0x00, 0x7F, 0xFF] @ replicate 32 0) = Some s' \<and> Phase s' = 3
          \<and> sint (data1 s' ! 0) = - 32768 \<and> sint (data1 s' ! 1) = 32767
          \<and> sint (data1 s' ! 17) = 0"
    by blast
  show ?thesis
    by (rule conjI[OF h1 conjI[OF c1 conjI[OF h2 conjI[OF c2 conjI[OF h3 c3]]]]])
qed

subsection \<open>Checksum mismatch\<close>

text \<open>
  C4. When the checksum test fails, nothing is printed on \<open>out_gs\<close> and \<open>out_eeg\<close>, the
  packet counter keeps its value, one line \<open>Error packet n\<close> with that value is printed,
  and the parser is in phase 0. A frame with a wrong checksum fed to the initial state
  gives no record and the single line \<open>Error packet 0\<close>.
\<close>

theorem C4_checksum_mismatch:
  "(Phase s = 4 \<and> MsgCRC s + ucast b \<noteq> Crc s \<longrightarrow>
      (\<exists>s'. step s b = Some s'
          \<and> out_gs s' = out_gs s \<and> out_eeg s' = out_eeg s \<and> packet s' = packet s
          \<and> out_stdout s' = out_stdout s @
               ''Error packet '' @ (fmt_d (uint (packet s))) @ [newline]
          \<and> records (out_stdout s') = records (out_stdout s) + 1
          \<and> Phase s' = 0))
   \<and> (length ps = 36 \<and> \<not> checksum_ok ps c1 c2 \<longrightarrow>
      (\<exists>s'. parser init_state (frame ps c1 c2) = Some s'
          \<and> out_gs s' = [] \<and> out_eeg s' = [] \<and> packet s' = 0
          \<and> out_stdout s' = ''Error packet 0'' @ [newline]
          \<and> records (out_stdout s') = 1
          \<and> Phase s' = 0))"
proof (intro conjI impI)
  assume a: "Phase s = 4 \<and> MsgCRC s + ucast b \<noteq> Crc s"
  then have "step s b = Some (phase4 s b)" by (simp add: step_def)
  moreover have "records (error_report (uint (packet s))) = 1" by simp
  ultimately show "\<exists>s'. step s b = Some s'
          \<and> out_gs s' = out_gs s \<and> out_eeg s' = out_eeg s \<and> packet s' = packet s
          \<and> out_stdout s' = out_stdout s @
               ''Error packet '' @ (fmt_d (uint (packet s))) @ [newline]
          \<and> records (out_stdout s') = records (out_stdout s) + 1
          \<and> Phase s' = 0"
    using a phase4_bad[of s b] by (simp add: error_report_def)
next
  assume a: "length ps = 36 \<and> \<not> checksum_ok ps c1 c2"
  have p: "Phase init_state = 0" by (simp add: init_state_def)
  have z: "fmt_d 0 = ''0''" by (simp add: fmt_d_def digits.simps digit_char_def)
  have "records (error_report 0) = 1" by simp
  then show "\<exists>s'. parser init_state (frame ps c1 c2) = Some s'
          \<and> out_gs s' = [] \<and> out_eeg s' = [] \<and> packet s' = 0
          \<and> out_stdout s' = ''Error packet 0'' @ [newline]
          \<and> records (out_stdout s') = 1
          \<and> Phase s' = 0"
    using a frame_rejected[OF p, of ps c1 c2]
    by (simp add: init_state_def error_report_def z)
qed

theorem C4_witness:
  "(Phase (init_state\<lparr>Phase := 4, Crc := 0x0123, MsgCRC := 0x0100, packet := 7\<rparr>) = 4
      \<and> MsgCRC (init_state\<lparr>Phase := 4, Crc := 0x0123, MsgCRC := 0x0100, packet := 7\<rparr>)
            + ucast (0x22 :: 8 word)
          \<noteq> Crc (init_state\<lparr>Phase := 4, Crc := 0x0123, MsgCRC := 0x0100, packet := 7\<rparr>))
   \<and> (\<exists>s'. step (init_state\<lparr>Phase := 4, Crc := 0x0123, MsgCRC := 0x0100, packet := 7\<rparr>) 0x22
            = Some s'
          \<and> out_gs s' = [] \<and> out_eeg s' = [] \<and> packet s' = 7
          \<and> out_stdout s' = ''Error packet 7'' @ [newline]
          \<and> records (out_stdout s') = 1 \<and> Phase s' = 0)
   \<and> (length (replicate 36 (1 :: 8 word)) = 36 \<and> \<not> checksum_ok (replicate 36 1) 0x01 0x22)
   \<and> (\<exists>s'. parser init_state (frame (replicate 36 1) 0x01 0x22) = Some s'
          \<and> out_gs s' = [] \<and> out_eeg s' = [] \<and> packet s' = 0
          \<and> out_stdout s' = ''Error packet 0'' @ [newline]
          \<and> records (out_stdout s') = 1 \<and> Phase s' = 0)"
proof -
  have h1: "Phase (init_state\<lparr>Phase := 4, Crc := 0x0123, MsgCRC := 0x0100, packet := 7\<rparr>) = 4
      \<and> MsgCRC (init_state\<lparr>Phase := 4, Crc := 0x0123, MsgCRC := 0x0100, packet := 7\<rparr>)
            + ucast (0x22 :: 8 word)
          \<noteq> Crc (init_state\<lparr>Phase := 4, Crc := 0x0123, MsgCRC := 0x0100, packet := 7\<rparr>)"
    by simp
  have h2: "length (replicate 36 (1 :: 8 word)) = 36 \<and> \<not> checksum_ok (replicate 36 1) 0x01 0x22"
    by (simp add: checksum_ok_def sum_list_replicate)
  have f: "fmt_d 7 = ''7''"
    by (simp add: fmt_d_def digits.simps digit_char_def)
  show ?thesis
    using h1 h2
      C4_checksum_mismatch [of "init_state\<lparr>Phase := 4, Crc := 0x0123, MsgCRC := 0x0100, packet := 7\<rparr>"
        "0x22" "replicate 36 1" "0x01" "0x22"]
    by (simp add: init_state_def f)
qed

subsection \<open>The EEG record\<close>

text \<open>
  C5 (as amended). When the checksum test succeeds, one record is appended to \<open>out_eeg\<close>:
  the incremented packet counter in decimal, \<open>data1[0]\<close> in signed decimal, the \<open>%f\<close> text
  of the double product \<open>data1[0] * 0.076\<close>, which is the exact product with six digits
  after the point, and a field of eight upper-case hexadecimal digits, which for a
  \<open>data1[9]\<close> that is not negative is its value padded with zeros; the fields are
  separated by a comma and a space, and one newline ends the record.
\<close>

theorem C5_eeg_record_format:
  "Phase s = 4 \<and> MsgCRC s + ucast b = Crc s \<longrightarrow>
     (\<exists>s' hex. step s b = Some s'
        \<and> out_eeg s' = out_eeg s @
             fmt_d (uint (packet s + 1)) @ '', '' @
             fmt_d (sint (data1 s ! 0)) @ '', '' @
             fmt_f (mul_0_076 (sint (data1 s ! 0))) @ '', '' @
             hex @ [newline]
        \<and> fmt_f (mul_0_076 (sint (data1 s ! 0))) =
             (if sint (data1 s ! 0) < 0 then ''-'' else []) @
             fixed6 (nat \<bar>sint (data1 s ! 0)\<bar> * 76000)
        \<and> length hex = 8 \<and> set hex \<subseteq> set ''0123456789ABCDEF''
        \<and> (0 \<le> sint (data1 s ! 9) \<longrightarrow>
             hex = ''0000'' @
               [digit_char (unat (data1 s ! 9) div 4096),
                digit_char (unat (data1 s ! 9) div 256 mod 16),
                digit_char (unat (data1 s ! 9) div 16 mod 16),
                digit_char (unat (data1 s ! 9) mod 16)])
        \<and> records (out_eeg s') = records (out_eeg s) + 1)"
proof
  assume a: "Phase s = 4 \<and> MsgCRC s + ucast b = Crc s"
  then have st: "step s b = Some (phase4 s b)" by (simp add: step_def)
  from a have ok: "MsgCRC s + ucast b = Crc s" by simp
  let ?hex = "fmt_08X (sint (data1 s ! 9))"
  have e: "out_eeg (phase4 s b) = out_eeg s @
             eeg_record (uint (packet s + 1)) (sint (data1 s ! 0)) (sint (data1 s ! 9))"
    by (simp add: phase4_ok[OF ok])
  have r: "records (out_eeg (phase4 s b)) = records (out_eeg s) + 1"
    unfolding e by simp
  have e': "out_eeg (phase4 s b) = out_eeg s @
             fmt_d (uint (packet s + 1)) @ '', '' @
             fmt_d (sint (data1 s ! 0)) @ '', '' @
             fmt_f (mul_0_076 (sint (data1 s ! 0))) @ '', '' @
             ?hex @ [newline]"
    unfolding e by (simp add: eeg_record_def)
  have f: "fmt_f (mul_0_076 (sint (data1 s ! 0))) =
             (if sint (data1 s ! 0) < 0 then ''-'' else []) @
             fixed6 (nat \<bar>sint (data1 s ! 0)\<bar> * 76000)"
    using sint16_range[of "data1 s ! 0"] by (intro fmt_f_mul_0_076) simp_all
  have h: "0 \<le> sint (data1 s ! 9) \<longrightarrow>
             ?hex = ''0000'' @
               [digit_char (unat (data1 s ! 9) div 4096),
                digit_char (unat (data1 s ! 9) div 256 mod 16),
                digit_char (unat (data1 s ! 9) div 16 mod 16),
                digit_char (unat (data1 s ! 9) mod 16)]"
  proof
    assume n: "0 \<le> sint (data1 s ! 9)"
    have "nat (sint (data1 s ! 9)) = unat (data1 s ! 9)"
      using sint16_nonneg(1)[OF n] by simp
    with fmt_08X_slot[OF n sint16_nonneg(2)[OF n]]
    show "?hex = ''0000'' @
               [digit_char (unat (data1 s ! 9) div 4096),
                digit_char (unat (data1 s ! 9) div 256 mod 16),
                digit_char (unat (data1 s ! 9) div 16 mod 16),
                digit_char (unat (data1 s ! 9) mod 16)]"
      by simp
  qed
  show "\<exists>s' hex. step s b = Some s'
        \<and> out_eeg s' = out_eeg s @
             fmt_d (uint (packet s + 1)) @ '', '' @
             fmt_d (sint (data1 s ! 0)) @ '', '' @
             fmt_f (mul_0_076 (sint (data1 s ! 0))) @ '', '' @
             hex @ [newline]
        \<and> fmt_f (mul_0_076 (sint (data1 s ! 0))) =
             (if sint (data1 s ! 0) < 0 then ''-'' else []) @
             fixed6 (nat \<bar>sint (data1 s ! 0)\<bar> * 76000)
        \<and> length hex = 8 \<and> set hex \<subseteq> set ''0123456789ABCDEF''
        \<and> (0 \<le> sint (data1 s ! 9) \<longrightarrow>
             hex = ''0000'' @
               [digit_char (unat (data1 s ! 9) div 4096),
                digit_char (unat (data1 s ! 9) div 256 mod 16),
                digit_char (unat (data1 s ! 9) div 16 mod 16),
                digit_char (unat (data1 s ! 9) mod 16)])
        \<and> records (out_eeg s') = records (out_eeg s) + 1"
    by (rule exI[of _ "phase4 s b"], rule exI[of _ ?hex])
       (rule conjI[OF st conjI[OF e' conjI[OF f conjI[OF length_fmt_08X
          conjI[OF fmt_08X_hex conjI[OF h r]]]]]])
qed

theorem C5_witness:
  "(Phase (init_state\<lparr>Phase := 4, Crc := 0x0123, MsgCRC := 0x0100, data1 := (replicate 18 0x0101)[0 := 0x8000]\<rparr>) = 4 \<and> MsgCRC (init_state\<lparr>Phase := 4, Crc := 0x0123, MsgCRC := 0x0100, data1 := (replicate 18 0x0101)[0 := 0x8000]\<rparr>) + ucast (0x23 :: 8 word) = Crc (init_state\<lparr>Phase := 4, Crc := 0x0123, MsgCRC := 0x0100, data1 := (replicate 18 0x0101)[0 := 0x8000]\<rparr>))
   \<and> 0 \<le> sint (data1 (init_state\<lparr>Phase := 4, Crc := 0x0123, MsgCRC := 0x0100, data1 := (replicate 18 0x0101)[0 := 0x8000]\<rparr>) ! 9)
   \<and> (\<exists>s'. step (init_state\<lparr>Phase := 4, Crc := 0x0123, MsgCRC := 0x0100, data1 := (replicate 18 0x0101)[0 := 0x8000]\<rparr>) 0x23 = Some s'
        \<and> out_eeg s' = ''1, -32768, -2490.368000, 00000101'' @ [newline]
        \<and> records (out_eeg s') = 1)"
proof -
  have h: "Phase (init_state\<lparr>Phase := 4, Crc := 0x0123, MsgCRC := 0x0100, data1 := (replicate 18 0x0101)[0 := 0x8000]\<rparr>) = 4 \<and> MsgCRC (init_state\<lparr>Phase := 4, Crc := 0x0123, MsgCRC := 0x0100, data1 := (replicate 18 0x0101)[0 := 0x8000]\<rparr>) + ucast (0x23 :: 8 word) = Crc (init_state\<lparr>Phase := 4, Crc := 0x0123, MsgCRC := 0x0100, data1 := (replicate 18 0x0101)[0 := 0x8000]\<rparr>)"
    by simp
  have n: "0 \<le> sint (data1 (init_state\<lparr>Phase := 4, Crc := 0x0123, MsgCRC := 0x0100, data1 := (replicate 18 0x0101)[0 := 0x8000]\<rparr>) ! 9)"
    by (simp add: replicate_num)
  have w: "sint (data1 (init_state\<lparr>Phase := 4, Crc := 0x0123, MsgCRC := 0x0100, data1 := (replicate 18 0x0101)[0 := 0x8000]\<rparr>) ! 0) = - 32768" "unat (data1 (init_state\<lparr>Phase := 4, Crc := 0x0123, MsgCRC := 0x0100, data1 := (replicate 18 0x0101)[0 := 0x8000]\<rparr>) ! 9) = 257"
      "uint (packet (init_state\<lparr>Phase := 4, Crc := 0x0123, MsgCRC := 0x0100, data1 := (replicate 18 0x0101)[0 := 0x8000]\<rparr>) + 1) = 1" "out_eeg (init_state\<lparr>Phase := 4, Crc := 0x0123, MsgCRC := 0x0100, data1 := (replicate 18 0x0101)[0 := 0x8000]\<rparr>) = []"
    by (simp_all add: replicate_num init_state_def)
  have f: "fmt_d 1 = ''1''" "fmt_d (- 32768) = ''-32768''" "fixed6 2490368000 = ''2490.368000''"
    by (simp_all add: fmt_d_def fixed6_def digits.simps digit_char_def)
  from mp[OF C5_eeg_record_format[of "init_state\<lparr>Phase := 4, Crc := 0x0123, MsgCRC := 0x0100, data1 := (replicate 18 0x0101)[0 := 0x8000]\<rparr>" "0x23"] h]
  obtain s' hex where st: "step (init_state\<lparr>Phase := 4, Crc := 0x0123, MsgCRC := 0x0100, data1 := (replicate 18 0x0101)[0 := 0x8000]\<rparr>) 0x23 = Some s'"
    and o: "out_eeg s' = out_eeg (init_state\<lparr>Phase := 4, Crc := 0x0123, MsgCRC := 0x0100, data1 := (replicate 18 0x0101)[0 := 0x8000]\<rparr>) @
             fmt_d (uint (packet (init_state\<lparr>Phase := 4, Crc := 0x0123, MsgCRC := 0x0100, data1 := (replicate 18 0x0101)[0 := 0x8000]\<rparr>) + 1)) @ '', '' @
             fmt_d (sint (data1 (init_state\<lparr>Phase := 4, Crc := 0x0123, MsgCRC := 0x0100, data1 := (replicate 18 0x0101)[0 := 0x8000]\<rparr>) ! 0)) @ '', '' @
             fmt_f (mul_0_076 (sint (data1 (init_state\<lparr>Phase := 4, Crc := 0x0123, MsgCRC := 0x0100, data1 := (replicate 18 0x0101)[0 := 0x8000]\<rparr>) ! 0))) @ '', '' @
             hex @ [newline]"
    and t: "fmt_f (mul_0_076 (sint (data1 (init_state\<lparr>Phase := 4, Crc := 0x0123, MsgCRC := 0x0100, data1 := (replicate 18 0x0101)[0 := 0x8000]\<rparr>) ! 0))) =
             (if sint (data1 (init_state\<lparr>Phase := 4, Crc := 0x0123, MsgCRC := 0x0100, data1 := (replicate 18 0x0101)[0 := 0x8000]\<rparr>) ! 0) < 0 then ''-'' else []) @
             fixed6 (nat \<bar>sint (data1 (init_state\<lparr>Phase := 4, Crc := 0x0123, MsgCRC := 0x0100, data1 := (replicate 18 0x0101)[0 := 0x8000]\<rparr>) ! 0)\<bar> * 76000)"
    and x: "0 \<le> sint (data1 (init_state\<lparr>Phase := 4, Crc := 0x0123, MsgCRC := 0x0100, data1 := (replicate 18 0x0101)[0 := 0x8000]\<rparr>) ! 9) \<longrightarrow>
             hex = ''0000'' @
               [digit_char (unat (data1 (init_state\<lparr>Phase := 4, Crc := 0x0123, MsgCRC := 0x0100, data1 := (replicate 18 0x0101)[0 := 0x8000]\<rparr>) ! 9) div 4096),
                digit_char (unat (data1 (init_state\<lparr>Phase := 4, Crc := 0x0123, MsgCRC := 0x0100, data1 := (replicate 18 0x0101)[0 := 0x8000]\<rparr>) ! 9) div 256 mod 16),
                digit_char (unat (data1 (init_state\<lparr>Phase := 4, Crc := 0x0123, MsgCRC := 0x0100, data1 := (replicate 18 0x0101)[0 := 0x8000]\<rparr>) ! 9) div 16 mod 16),
                digit_char (unat (data1 (init_state\<lparr>Phase := 4, Crc := 0x0123, MsgCRC := 0x0100, data1 := (replicate 18 0x0101)[0 := 0x8000]\<rparr>) ! 9) mod 16)]"
    and r: "records (out_eeg s') = records (out_eeg (init_state\<lparr>Phase := 4, Crc := 0x0123, MsgCRC := 0x0100, data1 := (replicate 18 0x0101)[0 := 0x8000]\<rparr>)) + 1"
    by (elim exE conjE) (rule that, assumption+)
  from mp[OF x n] have hx: "hex = ''00000101''"
    unfolding w by (simp add: digit_char_def)
  have tx: "fmt_f (mul_0_076 (sint (data1 (init_state\<lparr>Phase := 4, Crc := 0x0123, MsgCRC := 0x0100, data1 := (replicate 18 0x0101)[0 := 0x8000]\<rparr>) ! 0))) = ''-2490.368000''"
    unfolding t unfolding w by (simp add: f)
  have o': "out_eeg s' = ''1, -32768, -2490.368000, 00000101'' @ [newline]"
    unfolding o tx hx unfolding w by (simp add: f)
  have r': "records (out_eeg s') = 1"
    unfolding r unfolding w by simp
  from st o' r' have c: "\<exists>s'. step (init_state\<lparr>Phase := 4, Crc := 0x0123, MsgCRC := 0x0100, data1 := (replicate 18 0x0101)[0 := 0x8000]\<rparr>) 0x23 = Some s'
        \<and> out_eeg s' = ''1, -32768, -2490.368000, 00000101'' @ [newline]
        \<and> records (out_eeg s') = 1"
    by blast
  show ?thesis
    by (rule conjI[OF h conjI[OF n c]])
qed

text \<open>
  The claim as the specification words it fails twice. The record of the first valid
  packet has a comma and a space between its fields, not a bare comma; and a word 9 of
  \<open>0x8000\<close> is printed as \<open>FFFF8000\<close>, not as the slot value padded with zeros.
\<close>

theorem C5_counterexample:
  "map_option out_eeg (parser init_state (frame (replicate 36 1) 0x01 0x23))
     = Some (''1, 257, 19.532000, 00000101'' @ [newline])
   \<and> eeg_record_spec 1 257 0x0101 = ''1,257,19.532000,00000101'' @ [newline]
   \<and> map_option out_eeg (parser init_state (frame (replicate 36 1) 0x01 0x23))
       \<noteq> Some (eeg_record_spec 1 257 0x0101)
   \<and> map_option out_eeg (parser init_state (frame (replicate 18 0 @ [0x80, 0x00] @ replicate 16 0) 0x01 0x7F))
       = Some (''1, 0, 0.000000, FFFF8000'' @ [newline])
   \<and> fmt_08X (uint (0x8000 :: 16 word)) = ''00008000''
   \<and> map_option out_eeg (parser init_state (frame (replicate 18 0 @ [0x80, 0x00] @ replicate 16 0) 0x01 0x7F))
       \<noteq> Some (''1, 0, 0.000000, '' @ fmt_08X (uint (0x8000 :: 16 word)) @ [newline])"
proof -
  have ca: "checksum_ok (replicate 36 1) 0x01 0x23"
    by (simp add: checksum_ok_def sum_list_replicate)
  have cb: "checksum_ok (replicate 18 0 @ [0x80, 0x00] @ replicate 16 0) 0x01 0x7F"
    by (simp add: checksum_ok_def sum_list_replicate)
  have f: "fmt_d 1 = ''1''" "fmt_d 257 = ''257''" "fmt_d 0 = ''0''"
      "fixed6 19532000 = ''19.532000''" "fixed6 0 = ''0.000000''"
      "fmt_08X 257 = ''00000101''" "fmt_08X (- 32768) = ''FFFF8000''"
      "fmt_08X 32768 = ''00008000''"
    by (simp_all add: fmt_d_def fmt_08X_def fixed6_def digits.simps digit_char_def
        replicate_num)
  have m: "fmt_f (mul_0_076 257) = ''19.532000''" "fmt_f (mul_0_076 0) = ''0.000000''"
    by (simp_all add: fmt_f_mul_0_076 f)
  have ra: "eeg_record 1 257 257 = ''1, 257, 19.532000, 00000101'' @ [newline]"
    by (simp add: eeg_record_def f m)
  have rb: "eeg_record 1 0 (- 32768) = ''1, 0, 0.000000, FFFF8000'' @ [newline]"
    by (simp add: eeg_record_def f m)
  have sa: "eeg_record_spec 1 257 0x0101 = ''1,257,19.532000,00000101'' @ [newline]"
    by (simp add: eeg_record_spec_def f m)
  have hb: "fmt_08X (uint (0x8000 :: 16 word)) = ''00008000''"
    by (simp add: f)
  have a: "map_option out_eeg (parser init_state (frame (replicate 36 1) 0x01 0x23))
     = Some (''1, 257, 19.532000, 00000101'' @ [newline])"
    using ca frame_accepted[of init_state "replicate 36 1" "0x01" "0x23"]
    by (simp add: init_state_def replicate_num be16_def ra)
  have b: "map_option out_eeg (parser init_state (frame (replicate 18 0 @ [0x80, 0x00] @ replicate 16 0) 0x01 0x7F))
       = Some (''1, 0, 0.000000, FFFF8000'' @ [newline])"
    using cb frame_accepted[of init_state "replicate 18 0 @ [0x80, 0x00] @ replicate 16 0" "0x01" "0x7F"]
    by (simp add: init_state_def replicate_num be16_def rb)
  have na: "map_option out_eeg (parser init_state (frame (replicate 36 1) 0x01 0x23))
       \<noteq> Some (eeg_record_spec 1 257 0x0101)"
    unfolding a sa by simp
  have nb: "map_option out_eeg (parser init_state (frame (replicate 18 0 @ [0x80, 0x00] @ replicate 16 0) 0x01 0x7F))
       \<noteq> Some (''1, 0, 0.000000, '' @ fmt_08X (uint (0x8000 :: 16 word)) @ [newline])"
    unfolding b hb by simp
  show ?thesis
    by (rule conjI[OF a conjI[OF sa conjI[OF na conjI[OF b conjI[OF hb nb]]]]])
qed

subsection \<open>The GS record\<close>

text \<open>
  C6. When the checksum test succeeds, the record \<open><packet>, <word3>, <word16> \<close> and a
  newline is appended to \<open>out_gs\<close> if \<open>data1[16]\<close>, read as a signed 16-bit value, is not
  255, and nothing is appended otherwise. Along any run, the number of records on
  \<open>out_gs\<close> grows by the number of validated packets whose word 16 is not 255 (and the
  number on \<open>out_eeg\<close> by the number of validated packets).
\<close>

theorem C6_gs_record_iff_word16_not_255:
  "(Phase s = 4 \<and> MsgCRC s + ucast b = Crc s \<longrightarrow>
      (\<exists>s'. step s b = Some s'
         \<and> out_gs s' = out_gs s @
              (if sint (data1 s ! 16) \<noteq> 255
               then (fmt_d (uint (packet s + 1))) @ '', '' @
                    (fmt_d (sint (data1 s ! 3))) @ '', '' @
                    (fmt_d (sint (data1 s ! 16))) @ '' '' @ [newline]
               else [])
         \<and> (out_gs s' \<noteq> out_gs s \<longleftrightarrow> sint (data1 s ! 16) \<noteq> 255)))
   \<and> (\<forall>s'. parser s bs = Some s' \<longrightarrow>
         records (out_gs s') =
           records (out_gs s)
           + length (filter (\<lambda>d. sint (d ! 16) \<noteq> 255) (validated s bs))
         \<and> records (out_eeg s') = records (out_eeg s) + length (validated s bs))"
proof (intro conjI impI allI)
  assume a: "Phase s = 4 \<and> MsgCRC s + ucast b = Crc s"
  then have st: "step s b = Some (phase4 s b)" by (simp add: step_def)
  from step_out_gs[OF st] a gs_record_nonempty
  show "\<exists>s'. step s b = Some s'
         \<and> out_gs s' = out_gs s @
              (if sint (data1 s ! 16) \<noteq> 255
               then (fmt_d (uint (packet s + 1))) @ '', '' @
                    (fmt_d (sint (data1 s ! 3))) @ '', '' @
                    (fmt_d (sint (data1 s ! 16))) @ '' '' @ [newline]
               else [])
         \<and> (out_gs s' \<noteq> out_gs s \<longleftrightarrow> sint (data1 s ! 16) \<noteq> 255)"
    unfolding st by (simp add: gs_record_def)
next
  fix s'
  assume "parser s bs = Some s'"
  then show "records (out_gs s') =
           records (out_gs s)
           + length (filter (\<lambda>d. sint (d ! 16) \<noteq> 255) (validated s bs))"
    by (rule run_records_gs)
next
  fix s'
  assume "parser s bs = Some s'"
  then show "records (out_eeg s') = records (out_eeg s) + length (validated s bs)"
    by (rule run_records_eeg)
qed

theorem C6_witness:
  "(Phase (init_state\<lparr>Phase := 4, Crc := 0x0123, MsgCRC := 0x0100, data1 := (replicate 18 0x0101)[16 := 0xFFFF]\<rparr>) = 4 \<and> MsgCRC (init_state\<lparr>Phase := 4, Crc := 0x0123, MsgCRC := 0x0100, data1 := (replicate 18 0x0101)[16 := 0xFFFF]\<rparr>) + ucast (0x23 :: 8 word) = Crc (init_state\<lparr>Phase := 4, Crc := 0x0123, MsgCRC := 0x0100, data1 := (replicate 18 0x0101)[16 := 0xFFFF]\<rparr>))
   \<and> (\<exists>s'. step (init_state\<lparr>Phase := 4, Crc := 0x0123, MsgCRC := 0x0100, data1 := (replicate 18 0x0101)[16 := 0xFFFF]\<rparr>) 0x23 = Some s'
         \<and> out_gs s' = ''1, 257, -1 '' @ [newline])
   \<and> (Phase (init_state\<lparr>Phase := 4, Crc := 0x0123, MsgCRC := 0x0100, data1 := (replicate 18 0x0101)[16 := 0x00FF]\<rparr>) = 4 \<and> MsgCRC (init_state\<lparr>Phase := 4, Crc := 0x0123, MsgCRC := 0x0100, data1 := (replicate 18 0x0101)[16 := 0x00FF]\<rparr>) + ucast (0x23 :: 8 word) = Crc (init_state\<lparr>Phase := 4, Crc := 0x0123, MsgCRC := 0x0100, data1 := (replicate 18 0x0101)[16 := 0x00FF]\<rparr>))
   \<and> (\<exists>s'. step (init_state\<lparr>Phase := 4, Crc := 0x0123, MsgCRC := 0x0100, data1 := (replicate 18 0x0101)[16 := 0x00FF]\<rparr>) 0x23 = Some s' \<and> out_gs s' = [])
   \<and> (\<exists>s'. parser init_state (frame (replicate 32 0 @ [0x00, 0xFF, 0x00, 0x00]) 0x01 0xFE @ frame (replicate 32 0 @ [0x01, 0xFF, 0x00, 0x00]) 0x01 0xFF) = Some s'
         \<and> length (validated init_state (frame (replicate 32 0 @ [0x00, 0xFF, 0x00, 0x00]) 0x01 0xFE @ frame (replicate 32 0 @ [0x01, 0xFF, 0x00, 0x00]) 0x01 0xFF)) = 2
         \<and> records (out_gs s') = 1 \<and> records (out_eeg s') = 2)"
proof -
  have h4: "Phase (init_state\<lparr>Phase := 4, Crc := 0x0123, MsgCRC := 0x0100, data1 := (replicate 18 0x0101)[16 := 0xFFFF]\<rparr>) = 4 \<and> MsgCRC (init_state\<lparr>Phase := 4, Crc := 0x0123, MsgCRC := 0x0100, data1 := (replicate 18 0x0101)[16 := 0xFFFF]\<rparr>) + ucast (0x23 :: 8 word) = Crc (init_state\<lparr>Phase := 4, Crc := 0x0123, MsgCRC := 0x0100, data1 := (replicate 18 0x0101)[16 := 0xFFFF]\<rparr>)"
    by simp
  have h5: "Phase (init_state\<lparr>Phase := 4, Crc := 0x0123, MsgCRC := 0x0100, data1 := (replicate 18 0x0101)[16 := 0x00FF]\<rparr>) = 4 \<and> MsgCRC (init_state\<lparr>Phase := 4, Crc := 0x0123, MsgCRC := 0x0100, data1 := (replicate 18 0x0101)[16 := 0x00FF]\<rparr>) + ucast (0x23 :: 8 word) = Crc (init_state\<lparr>Phase := 4, Crc := 0x0123, MsgCRC := 0x0100, data1 := (replicate 18 0x0101)[16 := 0x00FF]\<rparr>)"
    by simp
  have f: "fmt_d 1 = ''1''" "fmt_d 257 = ''257''" "fmt_d (- 1) = ''-1''"
    by (simp_all add: fmt_d_def digits.simps digit_char_def)
  from mp[OF C6_gs_record_iff_word16_not_255[of "init_state\<lparr>Phase := 4, Crc := 0x0123, MsgCRC := 0x0100, data1 := (replicate 18 0x0101)[16 := 0xFFFF]\<rparr>" "0x23" "[]", THEN conjunct1] h4]
  have c4: "\<exists>s'. step (init_state\<lparr>Phase := 4, Crc := 0x0123, MsgCRC := 0x0100, data1 := (replicate 18 0x0101)[16 := 0xFFFF]\<rparr>) 0x23 = Some s'
         \<and> out_gs s' = ''1, 257, -1 '' @ [newline]"
    by (simp add: init_state_def replicate_num f) blast
  from mp[OF C6_gs_record_iff_word16_not_255[of "init_state\<lparr>Phase := 4, Crc := 0x0123, MsgCRC := 0x0100, data1 := (replicate 18 0x0101)[16 := 0x00FF]\<rparr>" "0x23" "[]", THEN conjunct1] h5]
  have c5: "\<exists>s'. step (init_state\<lparr>Phase := 4, Crc := 0x0123, MsgCRC := 0x0100, data1 := (replicate 18 0x0101)[16 := 0x00FF]\<rparr>) 0x23 = Some s' \<and> out_gs s' = []"
    by (simp add: init_state_def replicate_num)
  have v: "map (\<lambda>d. sint (d ! 16)) (validated init_state (frame (replicate 32 0 @ [0x00, 0xFF, 0x00, 0x00]) 0x01 0xFE @ frame (replicate 32 0 @ [0x01, 0xFF, 0x00, 0x00]) 0x01 0xFF)) = [255, 511]"
    by (simp add: frame_def step_def phase0_def phase1_def phase2_def phase3_def phase4_def
        init_state_def Let_def replicate_num)
  from arg_cong[OF v, of length]
  have v2: "length (validated init_state (frame (replicate 32 0 @ [0x00, 0xFF, 0x00, 0x00]) 0x01 0xFE @ frame (replicate 32 0 @ [0x01, 0xFF, 0x00, 0x00]) 0x01 0xFF)) = 2"
    by simp
  have "length (filter (\<lambda>x. x \<noteq> 255) (map (\<lambda>d. sint (d ! 16)) (validated init_state (frame (replicate 32 0 @ [0x00, 0xFF, 0x00, 0x00]) 0x01 0xFE @ frame (replicate 32 0 @ [0x01, 0xFF, 0x00, 0x00]) 0x01 0xFF)))) = 1"
    unfolding v by simp
  then have v1: "length (filter (\<lambda>d. sint (d ! 16) \<noteq> 255) (validated init_state (frame (replicate 32 0 @ [0x00, 0xFF, 0x00, 0x00]) 0x01 0xFE @ frame (replicate 32 0 @ [0x01, 0xFF, 0x00, 0x00]) 0x01 0xFF))) = 1"
    by (simp add: filter_map comp_def)
  from reachable_parser_total[OF reachable_init, of "frame (replicate 32 0 @ [0x00, 0xFF, 0x00, 0x00]) 0x01 0xFE @ frame (replicate 32 0 @ [0x01, 0xFF, 0x00, 0x00]) 0x01 0xFF"]
  obtain t where r: "parser init_state (frame (replicate 32 0 @ [0x00, 0xFF, 0x00, 0x00]) 0x01 0xFE @ frame (replicate 32 0 @ [0x01, 0xFF, 0x00, 0x00]) 0x01 0xFF) = Some t" by blast
  from C6_gs_record_iff_word16_not_255[of init_state "0x00" "frame (replicate 32 0 @ [0x00, 0xFF, 0x00, 0x00]) 0x01 0xFE @ frame (replicate 32 0 @ [0x01, 0xFF, 0x00, 0x00]) 0x01 0xFF", THEN conjunct2,
      rule_format, OF r] v1 v2
  have "records (out_gs t) = 1 \<and> records (out_eeg t) = 2"
    by (simp add: init_state_def)
  with r v2 have c6: "\<exists>s'. parser init_state (frame (replicate 32 0 @ [0x00, 0xFF, 0x00, 0x00]) 0x01 0xFE @ frame (replicate 32 0 @ [0x01, 0xFF, 0x00, 0x00]) 0x01 0xFF) = Some s'
         \<and> length (validated init_state (frame (replicate 32 0 @ [0x00, 0xFF, 0x00, 0x00]) 0x01 0xFE @ frame (replicate 32 0 @ [0x01, 0xFF, 0x00, 0x00]) 0x01 0xFF)) = 2
         \<and> records (out_gs s') = 1 \<and> records (out_eeg s') = 2"
    by blast
  show ?thesis
    by (rule conjI[OF h4 conjI[OF c4 conjI[OF h5 conjI[OF c5 c6]]]])
qed

subsection \<open>The command frame\<close>

text \<open>
  C7. For a 4-bit command type \<open>t\<close> and a 4-bit command option \<open>opt\<close>, \<open>setParam\<close> makes one
  call of the transport's write with the eight bytes
  \<open>0xAA, 0x55, 0x00, (t << 4) | opt, 0x00, 0x00, c, 0x03\<close>, where
  \<open>c = (0xAA + 0x55 + ((t << 4) | opt)) & 0xFF\<close>.
\<close>

theorem C7_setParam_frame:
  assumes "unat t < 16" and "unat opt < 16"
  shows "\<exists>c3 c. setParam ser t opt = ser @ [[0xAA, 0x55, 0x00, c3, 0x00, 0x00, c, 0x03]]
           \<and> c3 = push_bit 4 t OR opt
           \<and> uint c3 = push_bit 4 (uint t) OR uint opt
           \<and> uint c = (0xAA + 0x55 + (push_bit 4 (uint t) OR uint opt)) AND 0xFF"
proof -
  let ?c3 = "word_of_int (push_bit 4 (uint t) OR uint opt) :: 8 word"
  let ?c = "word_of_int (0xAA + 0x55 + uint ?c3) :: 8 word"
  have s: "setParam ser t opt = ser @ [[0xAA, 0x55, 0x00, ?c3, 0x00, 0x00, ?c, 0x03]]"
    by (simp add: setParam_def serial_write_def Let_def)
  have u: "uint ?c3 = push_bit 4 (uint t) OR uint opt"
    using assms by (rule nibble_byte_uint)
  have "uint ?c = (0xAA + 0x55 + uint ?c3) AND 0xFF"
    by (rule byte_sum_mask)
  then have c: "uint ?c = (0xAA + 0x55 + (push_bit 4 (uint t) OR uint opt)) AND 0xFF"
    by (simp only: u)
  have w: "?c3 = push_bit 4 t OR opt"
    by (rule nibble_byte_word)
  show ?thesis
    by (rule exI[of _ ?c3], rule exI[of _ ?c]) (rule conjI[OF s conjI[OF w conjI[OF u c]]])
qed

theorem C7_witness:
  "unat (0x1 :: 8 word) < 16 \<and> unat (0x1 :: 8 word) < 16
   \<and> (\<exists>c3 c. setParam [] 0x1 0x1 = [] @ [[0xAA, 0x55, 0x00, c3, 0x00, 0x00, c, 0x03]]
           \<and> c3 = push_bit 4 0x1 OR 0x1
           \<and> uint c3 = push_bit 4 (uint (0x1 :: 8 word)) OR uint (0x1 :: 8 word)
           \<and> uint c = (0xAA + 0x55 + (push_bit 4 (uint (0x1 :: 8 word)) OR uint (0x1 :: 8 word))) AND 0xFF)
   \<and> setParam [] 0x1 0x1 = [[0xAA, 0x55, 0x00, 0x11, 0x00, 0x00, 0x10, 0x03]]"
proof -
  have h: "unat (0x1 :: 8 word) < 16" by simp
  have e: "setParam [] 0x1 0x1 = [[0xAA, 0x55, 0x00, 0x11, 0x00, 0x00, 0x10, 0x03]]"
    by (simp add: setParam_def serial_write_def Let_def)
  show ?thesis
    by (rule conjI[OF h conjI[OF h conjI[OF C7_setParam_frame[OF h h, of "[]"] e]]])
qed

subsection \<open>The payload offset\<close>

text \<open>
  C8. In a reachable state the payload offset \<open>LocalIndex\<close> is at most 36 and no step
  stores outside \<open>data1[0..17]\<close> (\<open>step\<close> and \<open>parser\<close> never give \<open>None\<close>). In the data
  collection phase the offset is at most 35, the store goes to word \<open>LocalIndex / 2 < 18\<close>,
  the offset is incremented, and the next phase is 3 exactly when the incremented offset
  is 36 and phase 2 otherwise. In the other phases the buffer is not written.
\<close>

theorem C8_payload_offset_bounded:
  assumes "reachable s"
  shows "unat (LocalIndex s) \<le> 36
     \<and> (\<exists>t. parser s bs = Some t \<and> reachable t)
     \<and> (\<exists>s'. step s b = Some s'
           \<and> (Phase s = 2 \<longrightarrow>
                 unat (LocalIndex s) \<le> 35 \<and> unat (LocalIndex s) div 2 < 18
                 \<and> unat (LocalIndex s') = unat (LocalIndex s) + 1
                 \<and> (Phase s' = 3 \<longleftrightarrow> unat (LocalIndex s') = 36)
                 \<and> (Phase s' = 2 \<longleftrightarrow> unat (LocalIndex s') < 36))
           \<and> (Phase s \<noteq> 2 \<longrightarrow> data1 s' = data1 s \<and> Phase s' \<noteq> 3))"
proof (intro conjI)
  from reachable_offset[OF assms]
  have le: "unat (LocalIndex s) \<le> 36" and i: "Phase s = 2 \<longrightarrow> unat (LocalIndex s) < 36"
    by simp_all
  show "unat (LocalIndex s) \<le> 36" by (rule le)
  show "\<exists>t. parser s bs = Some t \<and> reachable t"
    using assms by (rule reachable_parser_total)
  show "\<exists>s'. step s b = Some s'
           \<and> (Phase s = 2 \<longrightarrow>
                 unat (LocalIndex s) \<le> 35 \<and> unat (LocalIndex s) div 2 < 18
                 \<and> unat (LocalIndex s') = unat (LocalIndex s) + 1
                 \<and> (Phase s' = 3 \<longleftrightarrow> unat (LocalIndex s') = 36)
                 \<and> (Phase s' = 2 \<longleftrightarrow> unat (LocalIndex s') < 36))
           \<and> (Phase s \<noteq> 2 \<longrightarrow> data1 s' = data1 s \<and> Phase s' \<noteq> 3)"
  proof (cases "Phase s = 2")
    case True
    with i have lt: "unat (LocalIndex s) < 36" by simp
    from step_phase2[OF True lt, of b] True lt li_succ[OF lt]
    show ?thesis by auto
  next
    case False
    then show ?thesis
      by (auto simp: step_def phase0_def phase1_def phase3_def)
  qed
qed

theorem C8_witness:
  "reachable (init_state\<lparr>Phase := 2, Crc := 0xFF\<rparr>)
   \<and> Phase (init_state\<lparr>Phase := 2, Crc := 0xFF\<rparr>) = 2
   \<and> (unat (LocalIndex (init_state\<lparr>Phase := 2, Crc := 0xFF\<rparr>)) \<le> 36
     \<and> (\<exists>t. parser (init_state\<lparr>Phase := 2, Crc := 0xFF\<rparr>) [0x80, 0x00] = Some t \<and> reachable t)
     \<and> (\<exists>s'. step (init_state\<lparr>Phase := 2, Crc := 0xFF\<rparr>) 0x80 = Some s'
           \<and> (Phase (init_state\<lparr>Phase := 2, Crc := 0xFF\<rparr>) = 2 \<longrightarrow>
                 unat (LocalIndex (init_state\<lparr>Phase := 2, Crc := 0xFF\<rparr>)) \<le> 35 \<and> unat (LocalIndex (init_state\<lparr>Phase := 2, Crc := 0xFF\<rparr>)) div 2 < 18
                 \<and> unat (LocalIndex s') = unat (LocalIndex (init_state\<lparr>Phase := 2, Crc := 0xFF\<rparr>)) + 1
                 \<and> (Phase s' = 3 \<longleftrightarrow> unat (LocalIndex s') = 36)
                 \<and> (Phase s' = 2 \<longleftrightarrow> unat (LocalIndex s') < 36))
           \<and> (Phase (init_state\<lparr>Phase := 2, Crc := 0xFF\<rparr>) \<noteq> 2 \<longrightarrow> data1 s' = data1 (init_state\<lparr>Phase := 2, Crc := 0xFF\<rparr>) \<and> Phase s' \<noteq> 3)))"
proof -
  have "parser init_state [0xAA, 0x55] = Some (init_state\<lparr>Phase := 2, Crc := 0xFF\<rparr>)"
    by (simp add: init_state_def step_def phase0_def phase1_def)
  with reachable_parser_total[OF reachable_init, of "[0xAA, 0x55]"]
  have r: "reachable (init_state\<lparr>Phase := 2, Crc := 0xFF\<rparr>)" by simp
  have p: "Phase (init_state\<lparr>Phase := 2, Crc := 0xFF\<rparr>) = 2" by simp
  show ?thesis
    by (rule conjI[OF r conjI[OF p C8_payload_offset_bounded[OF r, of "[0x80, 0x00]" "0x80"]]])
qed

subsection \<open>After a rejected frame\<close>

text \<open>
  C9 (as amended). A frame with the header \<open>0xAA 0x55\<close> and a wrong checksum, met in phase
  0, is 40 bytes long; the parser leaves phase 0 at its first byte, is back in phase 0
  exactly at its last byte and at no byte before, prints nothing on \<open>out_gs\<close> and
  \<open>out_eeg\<close> at any point of the frame, and prints one error report. Every continuation
  is then parsed from that state in phase 0, so the parser is in phase 0 within at most
  42 further bytes (at once, in fact) with no record printed. The same holds after the
  rejecting step in any state. A frame whose second byte is not \<open>0x55\<close> is different: in
  phase 1 the parser is not back in phase 0 for as long as no \<open>0x55\<close> arrives.
\<close>

theorem C9_phase0_after_rejected_frame:
  "(Phase s = 0 \<and> length ps = 36 \<and> \<not> checksum_ok ps c1 c2 \<longrightarrow>
      length (frame ps c1 c2) = 40
      \<and> (\<forall>k. 0 < k \<and> k < 40 \<longrightarrow>
            (\<exists>u. parser s (take k (frame ps c1 c2)) = Some u \<and> Phase u \<noteq> 0
                \<and> out_gs u = out_gs s \<and> out_eeg u = out_eeg s))
      \<and> (\<exists>s'. parser s (frame ps c1 c2) = Some s' \<and> Phase s' = 0
            \<and> out_gs s' = out_gs s \<and> out_eeg s' = out_eeg s \<and> packet s' = packet s
            \<and> out_stdout s' = out_stdout s @ error_report (uint (packet s))
            \<and> (\<forall>bs. parser s (frame ps c1 c2 @ bs) = parser s' bs
                   \<and> back_within 42 s' bs)))
   \<and> (Phase s = 4 \<and> MsgCRC s + ucast b \<noteq> Crc s \<longrightarrow>
      (\<exists>s'. step s b = Some s' \<and> Phase s' = 0
          \<and> out_gs s' = out_gs s \<and> out_eeg s' = out_eeg s
          \<and> (\<forall>bs. back_within 42 s' bs)))
   \<and> (Phase s = 1 \<and> 0x55 \<notin> set junk \<longrightarrow> \<not> back_within n s junk)"
proof (intro conjI impI)
  assume a: "Phase s = 0 \<and> length ps = 36 \<and> \<not> checksum_ok ps c1 c2"
  then show "length (frame ps c1 c2) = 40" by (simp add: frame_def)
next
  assume a: "Phase s = 0 \<and> length ps = 36 \<and> \<not> checksum_ok ps c1 c2"
  then obtain s' where r: "parser s (frame ps c1 c2) = Some s'"
    and o: "out_gs s' = out_gs s" "out_eeg s' = out_eeg s"
    using frame_rejected[of s ps c1 c2] by simp
  show "\<forall>k. 0 < k \<and> k < 40 \<longrightarrow>
            (\<exists>u. parser s (take k (frame ps c1 c2)) = Some u \<and> Phase u \<noteq> 0
                \<and> out_gs u = out_gs s \<and> out_eeg u = out_eeg s)"
  proof (intro allI impI)
    fix k :: nat
    assume k: "0 < k \<and> k < 40"
    from silent_run_prefix[OF r o, of k]
    obtain u where u: "parser s (take k (frame ps c1 c2)) = Some u"
      "out_gs u = out_gs s" "out_eeg u = out_eeg s" by blast
    from frame_prefix_phase[of s ps k c1 c2] a k u(1) have "Phase u \<noteq> 0" by auto
    with u show "\<exists>u. parser s (take k (frame ps c1 c2)) = Some u \<and> Phase u \<noteq> 0
                \<and> out_gs u = out_gs s \<and> out_eeg u = out_eeg s"
      by blast
  qed
next
  assume a: "Phase s = 0 \<and> length ps = 36 \<and> \<not> checksum_ok ps c1 c2"
  then obtain s' where r: "parser s (frame ps c1 c2) = Some s'" and p: "Phase s' = 0"
    and o: "out_gs s' = out_gs s" "out_eeg s' = out_eeg s" "packet s' = packet s"
      "out_stdout s' = out_stdout s @ error_report (uint (packet s))"
    using frame_rejected[of s ps c1 c2] by simp
  have "\<forall>bs. parser s (frame ps c1 c2 @ bs) = parser s' bs \<and> back_within 42 s' bs"
    using back_within_phase0[OF p] by (simp add: parser_append r)
  with r p o show "\<exists>s'. parser s (frame ps c1 c2) = Some s' \<and> Phase s' = 0
            \<and> out_gs s' = out_gs s \<and> out_eeg s' = out_eeg s \<and> packet s' = packet s
            \<and> out_stdout s' = out_stdout s @ error_report (uint (packet s))
            \<and> (\<forall>bs. parser s (frame ps c1 c2 @ bs) = parser s' bs
                   \<and> back_within 42 s' bs)"
    by blast
next
  assume a: "Phase s = 4 \<and> MsgCRC s + ucast b \<noteq> Crc s"
  then have st: "step s b = Some (phase4 s b)" by (simp add: step_def)
  from a have p: "Phase (phase4 s b) = 0" by (simp add: phase4_bad)
  have "\<forall>bs. back_within 42 (phase4 s b) bs"
    using back_within_phase0[OF p] by simp
  then show "\<exists>s'. step s b = Some s' \<and> Phase s' = 0
          \<and> out_gs s' = out_gs s \<and> out_eeg s' = out_eeg s
          \<and> (\<forall>bs. back_within 42 s' bs)"
    using a st p by (simp add: phase4_bad)
next
  assume "Phase s = 1 \<and> 0x55 \<notin> set junk"
  then show "\<not> back_within n s junk" by (simp add: stuck_phase1)
qed

theorem C9_witness:
  "(Phase init_state = 0 \<and> length (replicate 36 (1 :: 8 word)) = 36
        \<and> \<not> checksum_ok (replicate 36 1) 0x01 0x22)
   \<and> (0 < (39 :: nat) \<and> (39 :: nat) < 40)
   \<and> (\<exists>u. parser init_state (take 39 (frame (replicate 36 1) 0x01 0x22)) = Some u
          \<and> Phase u \<noteq> 0 \<and> out_gs u = [] \<and> out_eeg u = [])
   \<and> (\<exists>s'. parser init_state (frame (replicate 36 1) 0x01 0x22) = Some s'
          \<and> Phase s' = 0 \<and> out_gs s' = [] \<and> out_eeg s' = [] \<and> packet s' = 0
          \<and> out_stdout s' = error_report 0
          \<and> parser init_state (frame (replicate 36 1) 0x01 0x22 @ [0xAA, 0x55]) = parser s' [0xAA, 0x55]
          \<and> back_within 42 s' [0xAA, 0x55])
   \<and> (Phase (init_state\<lparr>Phase := 4, Crc := 0x0123, MsgCRC := 0x0100\<rparr>) = 4 \<and> MsgCRC (init_state\<lparr>Phase := 4, Crc := 0x0123, MsgCRC := 0x0100\<rparr>) + ucast (0x22 :: 8 word) \<noteq> Crc (init_state\<lparr>Phase := 4, Crc := 0x0123, MsgCRC := 0x0100\<rparr>))
   \<and> (\<exists>s'. step (init_state\<lparr>Phase := 4, Crc := 0x0123, MsgCRC := 0x0100\<rparr>) 0x22 = Some s'
          \<and> Phase s' = 0 \<and> out_gs s' = [] \<and> out_eeg s' = []
          \<and> back_within 42 s' (frame (replicate 36 1) 0x01 0x23))
   \<and> (Phase (init_state\<lparr>Phase := 1, Crc := 0xAA\<rparr>) = 1 \<and> 0x55 \<notin> set (replicate 42 (0 :: 8 word)))
   \<and> \<not> back_within 42 (init_state\<lparr>Phase := 1, Crc := 0xAA\<rparr>) (replicate 42 0)"
proof -
  have h0: "Phase init_state = 0 \<and> length (replicate 36 (1 :: 8 word)) = 36
        \<and> \<not> checksum_ok (replicate 36 1) 0x01 0x22"
    by (simp add: init_state_def checksum_ok_def sum_list_replicate)
  have hk: "0 < (39 :: nat) \<and> (39 :: nat) < 40" by simp
  have h4: "Phase (init_state\<lparr>Phase := 4, Crc := 0x0123, MsgCRC := 0x0100\<rparr>) = 4 \<and> MsgCRC (init_state\<lparr>Phase := 4, Crc := 0x0123, MsgCRC := 0x0100\<rparr>) + ucast (0x22 :: 8 word) \<noteq> Crc (init_state\<lparr>Phase := 4, Crc := 0x0123, MsgCRC := 0x0100\<rparr>)"
    by simp
  have h1: "Phase (init_state\<lparr>Phase := 1, Crc := 0xAA\<rparr>) = 1 \<and> 0x55 \<notin> set (replicate 42 (0 :: 8 word))"
    by simp
  have e: "out_gs init_state = []" "out_eeg init_state = []" "out_stdout init_state = []"
    "uint (packet init_state) = 0" "packet init_state = 0"
    by (simp_all add: init_state_def)
  note t0 = mp[OF C9_phase0_after_rejected_frame[of init_state "replicate 36 1" "0x01" "0x22",
        THEN conjunct1] h0]
  from t0[THEN conjunct2, THEN conjunct1, rule_format, OF hk]
  have c1: "\<exists>u. parser init_state (take 39 (frame (replicate 36 1) 0x01 0x22)) = Some u
          \<and> Phase u \<noteq> 0 \<and> out_gs u = [] \<and> out_eeg u = []"
    unfolding e .
  from t0[THEN conjunct2, THEN conjunct2]
  have c2: "\<exists>s'. parser init_state (frame (replicate 36 1) 0x01 0x22) = Some s'
          \<and> Phase s' = 0 \<and> out_gs s' = [] \<and> out_eeg s' = [] \<and> packet s' = 0
          \<and> out_stdout s' = error_report 0
          \<and> parser init_state (frame (replicate 36 1) 0x01 0x22 @ [0xAA, 0x55]) = parser s' [0xAA, 0x55]
          \<and> back_within 42 s' [0xAA, 0x55]"
    unfolding e by (simp only: append_Nil unsigned_0) blast
  from mp[OF C9_phase0_after_rejected_frame[of "init_state\<lparr>Phase := 4, Crc := 0x0123, MsgCRC := 0x0100\<rparr>" _ _ _ "0x22",
        THEN conjunct2, THEN conjunct1] h4]
  have c4: "\<exists>s'. step (init_state\<lparr>Phase := 4, Crc := 0x0123, MsgCRC := 0x0100\<rparr>) 0x22 = Some s'
          \<and> Phase s' = 0 \<and> out_gs s' = [] \<and> out_eeg s' = []
          \<and> back_within 42 s' (frame (replicate 36 1) 0x01 0x23)"
    by (simp add: e) blast
  from mp[OF C9_phase0_after_rejected_frame[of "init_state\<lparr>Phase := 1, Crc := 0xAA\<rparr>" _ _ _ _ "replicate 42 0" 42,
        THEN conjunct2, THEN conjunct2] h1]
  have c3: "\<not> back_within 42 (init_state\<lparr>Phase := 1, Crc := 0xAA\<rparr>) (replicate 42 0)" .
  show ?thesis
    by (rule conjI[OF h0 conjI[OF hk conjI[OF c1 conjI[OF c2 conjI[OF h4 conjI[OF c4
          conjI[OF h1 c3]]]]]]])
qed

text \<open>
  The claim as the specification words it fails for a frame whose second header byte is
  wrong. After the 40 bytes \<open>0xAA 0x56\<close>, payload, checksum the parser is in phase 1.
  On 42 further zero bytes it is never in phase 0; on \<open>0x55\<close>, a payload and its checksum
  it prints a record before it is in phase 0 again.
\<close>

theorem C9_counterexample:
  "parser init_state (0xAA # 0x56 # replicate 36 1 @ [0x01, 0x23]) = Some (init_state\<lparr>Phase := 1, Crc := 0xAA\<rparr>)
   \<and> \<not> back_within 42 (init_state\<lparr>Phase := 1, Crc := 0xAA\<rparr>) (replicate 42 0)
   \<and> \<not> back_within 42 (init_state\<lparr>Phase := 1, Crc := 0xAA\<rparr>) (0x55 # replicate 36 1 @ [0x01, 0x23] @ replicate 3 0)"
proof -
  have p: "Phase (init_state\<lparr>Phase := 1, Crc := 0xAA\<rparr>) = 1" by simp
  have j: "0x55 \<notin> set (0x56 # replicate 36 (1 :: 8 word) @ [0x01, 0x23])" by simp
  have "parser init_state (0xAA # 0x56 # replicate 36 1 @ [0x01, 0x23])
          = parser (init_state\<lparr>Phase := 1, Crc := 0xAA\<rparr>) (0x56 # replicate 36 1 @ [0x01, 0x23])"
    by (simp add: init_state_def step_def phase0_def)
  also have "\<dots> = Some (init_state\<lparr>Phase := 1, Crc := 0xAA\<rparr>)" using p j by (rule junk_run)
  finally have a: "parser init_state (0xAA # 0x56 # replicate 36 1 @ [0x01, 0x23]) = Some (init_state\<lparr>Phase := 1, Crc := 0xAA\<rparr>)" .
  have b: "\<not> back_within 42 (init_state\<lparr>Phase := 1, Crc := 0xAA\<rparr>) (replicate 42 0)"
    using p by (rule stuck_phase1) simp
  have "checksum_ok (replicate 36 1) 0x01 0x23"
    by (simp add: checksum_ok_def sum_list_replicate)
  then have c: "\<not> back_within 42 (init_state\<lparr>Phase := 1, Crc := 0xAA\<rparr>) (0x55 # replicate 36 1 @ [0x01, 0x23] @ replicate 3 0)"
    by (intro record_before_phase0) (simp_all add: init_state_def)
  show ?thesis by (rule conjI[OF a conjI[OF b c]])
qed

subsection \<open>Bytes between the header bytes\<close>

text \<open>
  C10. In phase 1 a byte other than \<open>0x55\<close> leaves the whole state as it is. Hence a
  stream \<open>0xAA\<close>, bytes other than \<open>0x55\<close>, \<open>0x55\<close>, 36 payload bytes and a matching
  checksum is parsed to the same state as the frame without the bytes in between, and the
  packet is validated and printed.
\<close>

theorem C10_phase1_skips_bytes:
  "(Phase s = 1 \<and> b \<noteq> 0x55 \<longrightarrow> step s b = Some s)
   \<and> (Phase s = 0 \<and> length (data1 s) = 18 \<and> 0x55 \<notin> set junk \<and> length ps = 36
        \<and> checksum_ok ps c1 c2 \<longrightarrow>
        parser s (0xAA # junk @ 0x55 # ps @ [c1, c2]) = parser s (frame ps c1 c2)
        \<and> (\<exists>s'. parser s (0xAA # junk @ 0x55 # ps @ [c1, c2]) = Some s'
              \<and> Phase s' = 0 \<and> RdyFlg s' = 1 \<and> packet s' = packet s + 1
              \<and> data1 s' = words_of ps
              \<and> out_eeg s' = out_eeg s @
                   eeg_record (uint (packet s + 1)) (sint (words_of ps ! 0))
                     (sint (words_of ps ! 9))
              \<and> out_stdout s' = out_stdout s))"
proof (intro conjI impI)
  assume "Phase s = 1 \<and> b \<noteq> 0x55"
  then show "step s b = Some s" by (simp add: phase1_skip)
next
  assume a: "Phase s = 0 \<and> length (data1 s) = 18 \<and> 0x55 \<notin> set junk \<and> length ps = 36
        \<and> checksum_ok ps c1 c2"
  let ?s1 = "s\<lparr>Phase := 1, Crc := 0xAA\<rparr>"
  have s1: "step s 0xAA = Some ?s1" using a by (simp add: step_def phase0_def)
  have "parser ?s1 junk = Some ?s1" using a by (intro junk_run) simp_all
  then have "parser s (0xAA # junk @ 0x55 # ps @ [c1, c2]) = parser ?s1 (0x55 # ps @ [c1, c2])"
    using s1 by (simp add: parser_append)
  also have "\<dots> = parser s (frame ps c1 c2)"
    using s1 by (simp add: frame_def)
  finally show eq: "parser s (0xAA # junk @ 0x55 # ps @ [c1, c2]) = parser s (frame ps c1 c2)" .
  from a have "Phase s = 0" "length (data1 s) = 18" "length ps = 36" "checksum_ok ps c1 c2"
    by simp_all
  from frame_accepted[OF this]
  show "\<exists>s'. parser s (0xAA # junk @ 0x55 # ps @ [c1, c2]) = Some s'
              \<and> Phase s' = 0 \<and> RdyFlg s' = 1 \<and> packet s' = packet s + 1
              \<and> data1 s' = words_of ps
              \<and> out_eeg s' = out_eeg s @
                   eeg_record (uint (packet s + 1)) (sint (words_of ps ! 0))
                     (sint (words_of ps ! 9))
              \<and> out_stdout s' = out_stdout s"
    unfolding eq by simp
qed

theorem C10_witness:
  "(Phase (init_state\<lparr>Phase := 1\<rparr>) = 1 \<and> (0xAA :: 8 word) \<noteq> 0x55)
   \<and> step (init_state\<lparr>Phase := 1\<rparr>) 0xAA = Some (init_state\<lparr>Phase := 1\<rparr>)
   \<and> (Phase init_state = 0 \<and> length (data1 init_state) = 18
        \<and> 0x55 \<notin> set [0xAA, 0x56, 0x00 :: 8 word] \<and> length (replicate 36 (1 :: 8 word)) = 36
        \<and> checksum_ok (replicate 36 1) 0x01 0x23)
   \<and> parser init_state (0xAA # [0xAA, 0x56, 0x00] @ 0x55 # replicate 36 1 @ [0x01, 0x23])
       = parser init_state (frame (replicate 36 1) 0x01 0x23)
   \<and> (\<exists>s'. parser init_state (0xAA # [0xAA, 0x56, 0x00] @ 0x55 # replicate 36 1 @ [0x01, 0x23])
              = Some s'
          \<and> Phase s' = 0 \<and> RdyFlg s' = 1 \<and> packet s' = packet init_state + 1
          \<and> data1 s' = words_of (replicate 36 1)
          \<and> out_eeg s' = out_eeg init_state @
               eeg_record (uint (packet init_state + 1)) (sint (words_of (replicate 36 1) ! 0))
                 (sint (words_of (replicate 36 1) ! 9))
          \<and> out_stdout s' = out_stdout init_state)"
proof -
  have h1: "Phase (init_state\<lparr>Phase := 1\<rparr>) = 1 \<and> (0xAA :: 8 word) \<noteq> 0x55"
    by simp
  have h2: "Phase init_state = 0 \<and> length (data1 init_state) = 18
        \<and> 0x55 \<notin> set [0xAA, 0x56, 0x00 :: 8 word] \<and> length (replicate 36 (1 :: 8 word)) = 36
        \<and> checksum_ok (replicate 36 1) 0x01 0x23"
    by (simp add: init_state_def checksum_ok_def sum_list_replicate)
  show ?thesis
    using h1 h2
      C10_phase1_skips_bytes [of "init_state\<lparr>Phase := 1\<rparr>" "0xAA"
        "[0xAA, 0x56, 0x00]" "replicate 36 1" "0x01" "0x23"]
      C10_phase1_skips_bytes [of init_state "0xAA"
        "[0xAA, 0x56, 0x00]" "replicate 36 1" "0x01" "0x23"]
    by blast
qed

end
